theory Spec2Isabelle
  imports Main "HOL-Library.Word" "HOL-Library.Char_ord"
begin

section \<open>The virtual machine (src/vm.c)\<close>

subsection \<open>Data model\<close>

text \<open>
  Modelled from the spec: vm.h is not among the sources. The outcome enumeration of
  \<^verbatim>\<open>interpret\<close> is the one the spec lists: success, compile error (reserved), runtime
  error. vm.c itself only ever names \<^verbatim>\<open>INTERPRET_OK\<close>.
\<close>

datatype InterpretResult = INTERPRET_OK | INTERPRET_COMPILE_ERROR | INTERPRET_RUNTIME_ERROR

text \<open>
  Modelled from the spec: chunk.h is not among the sources. The opcode enumeration has
  the two members vm.c dispatches on; they are numbered as a C enumeration numbers its
  members, in the order the spec lists them (load-constant, return). Every proof below
  uses only that the two bytes differ, which C demands of two case labels of one switch.
\<close>

definition OP_CONSTANT :: "8 word" where
  "OP_CONSTANT = 0"

definition OP_RETURN :: "8 word" where
  "OP_RETURN = 1"

text \<open>
  A chunk is the instruction bytes and the constant pool. The value type is left open
  (\<open>'v\<close>): vm.c copies and prints values and never looks inside one.
\<close>

record 'v Chunk =
  code :: "8 word list"
  constants :: "'v list"

text \<open>
  The global \<^verbatim>\<open>vm\<close>. \<open>ip\<close> is the offset of \<^verbatim>\<open>vm.ip\<close> from \<^verbatim>\<open>vm.chunk->code\<close>;
  \<open>stack\<close> is the array \<^verbatim>\<open>vm.stack\<close>, whose length is the fixed capacity; \<open>stackTop\<close> is
  the offset of the pointer \<^verbatim>\<open>vm.stackTop\<close> from \<^verbatim>\<open>vm.stack\<close>. The offset is an integer:
  nothing in the code keeps it from going below zero or beyond the capacity.
\<close>

record 'v VM =
  chunk :: "'v Chunk"
  ip :: nat
  stack :: "'v list"
  stackTop :: int

text \<open>
  What the program writes to standard output: \<^verbatim>\<open>printValue\<close> (value.c) and
  \<^verbatim>\<open>disassembleInstruction\<close> (debug.c) are external, so a call is recorded as an event.
\<close>

datatype 'v event = TraceInstruction nat | PrintValue 'v | PrintNewline

text \<open>
  C leaves a read outside an array undefined. The model makes each such read a value of
  its own, so that no theorem rests on what HOL returns for an index out of range.
\<close>

datatype fault = CodeReadOutOfBounds | ConstantReadOutOfBounds

subsection \<open>Stack operations\<close>

definition resetStack :: "'v VM \<Rightarrow> 'v VM" where
  "resetStack vm = vm\<lparr>stackTop := 0\<rparr>"

definition initVM :: "'v VM \<Rightarrow> 'v VM" where
  "initVM vm = resetStack vm"

definition freeVM :: "'v VM \<Rightarrow> 'v VM" where
  "freeVM vm = vm"

text \<open>
  \<^verbatim>\<open>*vm.stack = value; vm.stackTop++;\<close> The write goes to the base slot \<^verbatim>\<open>vm.stack[0]\<close>.
\<close>

definition push :: "'v \<Rightarrow> 'v VM \<Rightarrow> 'v VM" where
  "push value vm = vm\<lparr>stack := (stack vm)[0 := value], stackTop := stackTop vm + 1\<rparr>"

text \<open>The read \<^verbatim>\<open>*p\<close> of a slot at offset \<open>i\<close>; \<open>None\<close> when the slot is outside the array.\<close>

definition read_slot :: "'v list \<Rightarrow> int \<Rightarrow> 'v option" where
  "read_slot slots i = (if 0 \<le> i \<and> i < int (length slots) then Some (slots ! nat i) else None)"

text \<open>\<^verbatim>\<open>vm.stackTop--; return *vm.stackTop;\<close>\<close>

definition pop :: "'v VM \<Rightarrow> 'v option \<times> 'v VM" where
  "pop vm = (let vm' = vm\<lparr>stackTop := stackTop vm - 1\<rparr>
             in (read_slot (stack vm') (stackTop vm'), vm'))"

subsection \<open>The dispatch loop\<close>

text \<open>
  \<open>trace\<close> says whether \<^verbatim>\<open>DEBUG_TRACE_EXECUTION\<close> is defined (common.h is not among the
  sources). \<open>out\<close> is the output written so far. One unfolding of \<open>run\<close> is one turn
  of \<^verbatim>\<open>for (;;)\<close>: \<^verbatim>\<open>READ_BYTE()\<close> reads the byte at \<open>ip\<close> and advances \<open>ip\<close>; a byte
  matching no case label leaves the switch and the loop goes on.
\<close>

function run :: "bool \<Rightarrow> 'v VM \<Rightarrow> 'v event list
    \<Rightarrow> (fault + InterpretResult) \<times> 'v VM \<times> 'v event list" where
  "run trace vm out =
     (let out1 = (if trace then out @ [TraceInstruction (ip vm)] else out) in
      if ip vm < length (code (chunk vm)) then
        let instruction = code (chunk vm) ! ip vm;
            vm1 = vm\<lparr>ip := ip vm + 1\<rparr>
        in if instruction = OP_CONSTANT then
             (if ip vm1 < length (code (chunk vm1)) then
                let idx = unat (code (chunk vm1) ! ip vm1);
                    vm2 = vm1\<lparr>ip := ip vm1 + 1\<rparr>
                in if idx < length (constants (chunk vm2)) then
                     let constant = constants (chunk vm2) ! idx
                     in run trace vm2 (out1 @ [PrintValue constant, PrintNewline])
                   else (Inl ConstantReadOutOfBounds, vm2, out1)
              else (Inl CodeReadOutOfBounds, vm1, out1))
           else if instruction = OP_RETURN then (Inr INTERPRET_OK, vm1, out1)
           else run trace vm1 out1
      else (Inl CodeReadOutOfBounds, vm, out1))"
  by pat_completeness auto
termination
  by (relation "measure (\<lambda>(trace, vm, out). length (code (chunk vm)) - ip vm)") auto

declare run.simps [simp del]

text \<open>
  \<^verbatim>\<open>interpret\<close> of vm.c (the plain name is a command word of Isabelle, hence the suffix).
  It stores the chunk, points \<open>ip\<close> at the first byte of the code and runs the loop; it
  does not call \<^verbatim>\<open>resetStack\<close>.
\<close>

definition interpret_chunk :: "bool \<Rightarrow> 'v Chunk \<Rightarrow> 'v VM \<Rightarrow> 'v event list
    \<Rightarrow> (fault + InterpretResult) \<times> 'v VM \<times> 'v event list" where
  "interpret_chunk trace c vm out = run trace (vm\<lparr>chunk := c, ip := 0\<rparr>) out"

text \<open>
  The invariant of the spec's data model: the number of live values, which is the
  offset of the top marker, lies between zero and the capacity.
\<close>

definition stack_ok :: "'v VM \<Rightarrow> bool" where
  "stack_ok vm = (0 \<le> stackTop vm \<and> stackTop vm \<le> int (length (stack vm)))"

text \<open>
  The output of one turn of the loop before the switch: the disassembly line, when
  tracing is compiled in.
\<close>

definition trace_out :: "bool \<Rightarrow> nat \<Rightarrow> 'v event list" where
  "trace_out trace offset = (if trace then [TraceInstruction offset] else [])"

text \<open>
  The instruction bytes of a sequence of load-constant instructions with the given
  operand bytes, and what executing them from the given offset up to and including a
  following return writes, read off the spec's description of the two opcodes together
  with the output statements of the source.
\<close>

definition load_code :: "8 word list \<Rightarrow> 8 word list" where
  "load_code idxs = concat (map (\<lambda>i. [OP_CONSTANT, i]) idxs)"

fun load_output :: "bool \<Rightarrow> 'v list \<Rightarrow> nat \<Rightarrow> 8 word list \<Rightarrow> 'v event list" where
  "load_output trace pool offset [] = trace_out trace offset"
| "load_output trace pool offset (i # idxs) =
     trace_out trace offset @ [PrintValue (pool ! unat i), PrintNewline]
       @ load_output trace pool (offset + 2) idxs"

section \<open>The scanner (src/scanner.c)\<close>

subsection \<open>Data model\<close>

text \<open>
  The token kinds are the enumerators of \<^verbatim>\<open>TokenType\<close> that scanner.c names (scanner.h
  is not among the sources).
\<close>

datatype TokenType =
    TOKEN_LEFT_PAREN | TOKEN_RIGHT_PAREN | TOKEN_LEFT_BRACE | TOKEN_RIGHT_BRACE
  | TOKEN_COMMA | TOKEN_DOT | TOKEN_MINUS | TOKEN_PLUS | TOKEN_SEMICOLON | TOKEN_SLASH
  | TOKEN_STAR
  | TOKEN_BANG | TOKEN_BANG_EQUAL | TOKEN_EQUAL | TOKEN_EQUAL_EQUAL
  | TOKEN_GREATER | TOKEN_GREATER_EQUAL | TOKEN_LESS | TOKEN_LESS_EQUAL
  | TOKEN_IDENTIFIER | TOKEN_STRING | TOKEN_NUMBER
  | TOKEN_AND | TOKEN_CLASS | TOKEN_ELSE | TOKEN_FALSE | TOKEN_FOR | TOKEN_FUN | TOKEN_IF
  | TOKEN_NIL | TOKEN_OR | TOKEN_PRINT | TOKEN_RETURN | TOKEN_SUPER | TOKEN_THIS
  | TOKEN_TRUE | TOKEN_VAR | TOKEN_WHILE
  | TOKEN_ERROR | TOKEN_EOF

text \<open>
  \<^verbatim>\<open>Token.start\<close> points either into the source buffer or, for an error token, at a
  message literal. In the first case the model keeps the offset from the beginning of
  the buffer, in the second the message. \<^verbatim>\<open>Token.length\<close> and \<^verbatim>\<open>Token.line\<close> are C
  \<^verbatim>\<open>int\<close>s, modelled as 32-bit words: arithmetic on them wraps, and \<open>sint\<close> reads the
  signed value. The theorems that speak of their values as numbers carry the bound on the
  buffer length under which no wrap-around occurs.
\<close>

datatype text_ref = Source nat | Message string

record Token =
  tok_type :: TokenType
  tok_start :: text_ref
  tok_length :: "32 word"
  tok_line :: "32 word"

text \<open>
  The global \<^verbatim>\<open>scanner\<close>. \<open>start\<close> and \<open>current\<close> are the offsets of the two pointers
  from the beginning of the source buffer.
\<close>

record Scanner =
  start :: nat
  current :: nat
  line :: "32 word"

text \<open>
  The source buffer is a C string. The model passes the characters before the terminating
  NUL as \<open>src\<close>; the read at offset \<open>length src\<close> yields the terminator. A read beyond
  the terminator would be undefined in C: \<open>char_at\<close> yields NUL there too, and the
  theorems about C10 show that the cursor never passes offset \<open>length src\<close>, while
  \<^verbatim>\<open>peekNext\<close> looks one character ahead only when the cursor is not at the terminator. A
  NUL inside \<open>src\<close> acts as the terminator, as it does in C.
\<close>

definition char_at :: "string \<Rightarrow> nat \<Rightarrow> char" where
  "char_at src i = (if i < length src then src ! i else CHR 0x00)"

definition initScanner :: "string \<Rightarrow> Scanner" where
  "initScanner src = \<lparr>start = 0, current = 0, line = 1\<rparr>"

text \<open>
  The comparisons are those of the character codes. For a code above 127 the outcome is
  the same whether \<^verbatim>\<open>char\<close> is signed or not: such a character is in none of the ranges.
\<close>

definition isAlpha :: "char \<Rightarrow> bool" where
  "isAlpha c = ((CHR ''a'' \<le> c \<and> c \<le> CHR ''z'') \<or>
                (CHR ''A'' \<le> c \<and> c \<le> CHR ''Z'') \<or>
                c = CHR ''_'')"

definition isDigit :: "char \<Rightarrow> bool" where
  "isDigit c = (CHR ''0'' \<le> c \<and> c \<le> CHR ''9'')"

definition isAtEnd :: "string \<Rightarrow> Scanner \<Rightarrow> bool" where
  "isAtEnd src sc = (char_at src (current sc) = CHR 0x00)"

text \<open>
  \<^verbatim>\<open>scanner.current++; return scanner.current[-1];\<close>
\<close>

definition advance :: "string \<Rightarrow> Scanner \<Rightarrow> char \<times> Scanner" where
  "advance src sc = (let sc' = sc\<lparr>current := current sc + 1\<rparr>
                     in (char_at src (current sc' - 1), sc'))"

definition peek :: "string \<Rightarrow> Scanner \<Rightarrow> char" where
  "peek src sc = char_at src (current sc)"

definition peekNext :: "string \<Rightarrow> Scanner \<Rightarrow> char" where
  "peekNext src sc = (if isAtEnd src sc then CHR 0x00 else char_at src (current sc + 1))"

definition match :: "string \<Rightarrow> char \<Rightarrow> Scanner \<Rightarrow> bool \<times> Scanner" where
  "match src expected sc =
     (if isAtEnd src sc then (False, sc)
      else if char_at src (current sc) \<noteq> expected then (False, sc)
      else (True, sc\<lparr>current := current sc + 1\<rparr>))"

definition makeToken :: "TokenType \<Rightarrow> Scanner \<Rightarrow> Token" where
  "makeToken type sc =
     \<lparr>tok_type = type, tok_start = Source (start sc),
      tok_length = word_of_int (int (current sc) - int (start sc)),
      tok_line = line sc\<rparr>"

definition errorToken :: "string \<Rightarrow> Scanner \<Rightarrow> Token" where
  "errorToken message sc =
     \<lparr>tok_type = TOKEN_ERROR, tok_start = Message message,
      tok_length = word_of_nat (length message),
      tok_line = line sc\<rparr>"

subsection \<open>Skipping whitespace and comments\<close>

lemma not_at_end_in_range: "char_at src i \<noteq> CHR 0x00 \<Longrightarrow> i < length src"
  by (simp add: char_at_def split: if_splits)

lemma char_at_in_range: "char_at src i = c \<Longrightarrow> c \<noteq> CHR 0x00 \<Longrightarrow> i < length src"
  by (auto simp: char_at_def split: if_splits)

text \<open>
  The inner loop of \<^verbatim>\<open>skipWhitespace\<close>, which consumes a line comment:
  \<^verbatim>\<open>while (peek() != '\n' && !isAtEnd()) advance();\<close>
\<close>

function skipComment :: "string \<Rightarrow> Scanner \<Rightarrow> Scanner" where
  "skipComment src sc =
     (if peek src sc \<noteq> CHR 0x0A \<and> \<not> isAtEnd src sc
      then skipComment src (snd (advance src sc)) else sc)"
  by pat_completeness auto
termination
  by (relation "measure (\<lambda>(src, sc). length src - current sc)")
     (auto simp: isAtEnd_def advance_def dest!: not_at_end_in_range)

declare skipComment.simps [simp del]

lemma skipComment_current: "current sc \<le> current (skipComment src sc)"
proof (induction src sc rule: skipComment.induct)
  case (1 src sc)
  then show ?case
    by (subst skipComment.simps) (auto simp: advance_def)
qed

lemma skipComment_progress:
  "peek src sc = CHR ''/'' \<Longrightarrow> current sc < current (skipComment src sc)"
  using skipComment_current [of "snd (advance src sc)" src]
  by (subst skipComment.simps) (auto simp: advance_def peek_def isAtEnd_def)

text \<open>
  One unfolding of \<open>skipWhitespace\<close> is one turn of its \<^verbatim>\<open>for (;;)\<close>. The characters are
  space, carriage return (0x0D), tab (0x09) and newline (0x0A).
\<close>

function skipWhitespace :: "string \<Rightarrow> Scanner \<Rightarrow> Scanner" where
  "skipWhitespace src sc =
     (let c = peek src sc in
      if c = CHR '' '' \<or> c = CHR 0x0D \<or> c = CHR 0x09 then
        skipWhitespace src (snd (advance src sc))
      else if c = CHR 0x0A then
        skipWhitespace src (snd (advance src (sc\<lparr>line := line sc + 1\<rparr>)))
      else if c = CHR ''/'' then
        (if peekNext src sc = CHR ''/'' then skipWhitespace src (skipComment src sc)
         else sc)
      else sc)"
  by pat_completeness auto
termination
proof (relation "measure (\<lambda>(src, sc). length src - current sc)", goal_cases)
  case 1
  show ?case by simp
next
  case (2 src sc c)
  then have "current sc < length src"
    by (auto simp: peek_def intro!: not_at_end_in_range)
  then show ?case
    by (simp add: advance_def)
next
  case (3 src sc c)
  then have "current sc < length src"
    by (auto simp: peek_def intro!: not_at_end_in_range)
  then show ?case
    by (simp add: advance_def)
next
  case (4 src sc c)
  then have slash: "char_at src (current sc) = CHR ''/''"
    by (simp add: peek_def)
  have "current sc < length src"
    by (rule char_at_in_range [OF slash]) simp
  moreover have "current sc < current (skipComment src sc)"
    using slash by (intro skipComment_progress) (simp add: peek_def)
  ultimately show ?case by simp
qed

declare skipWhitespace.simps [simp del]

subsection \<open>Identifiers and keywords\<close>

text \<open>
  \<^verbatim>\<open>memcmp(p, rest, n) == 0\<close> for \<open>p\<close> at offset \<open>p\<close> of the source buffer: the \<open>n\<close>
  characters from there equal the first \<open>n\<close> characters of \<open>rest\<close>.
\<close>

definition memcmp_eq :: "string \<Rightarrow> nat \<Rightarrow> string \<Rightarrow> nat \<Rightarrow> bool" where
  "memcmp_eq src p rest n = (map (char_at src) [p ..< p + n] = take n rest)"

text \<open>
  The difference of the two pointers is a signed quantity, hence the integers. The
  conjunction is C's \<^verbatim>\<open>&&\<close>: the comparison of the contents is only made when the lengths
  agree.
\<close>

definition checkKeyword :: "string \<Rightarrow> Scanner \<Rightarrow> nat \<Rightarrow> nat \<Rightarrow> string \<Rightarrow> TokenType
    \<Rightarrow> TokenType" where
  "checkKeyword src sc start' length' rest type =
     (if int (current sc) - int (start sc) = int start' + int length' \<and>
         memcmp_eq src (start sc + start') rest length'
      then type else TOKEN_IDENTIFIER)"

text \<open>
  The two-level switch. A \<^verbatim>\<open>break\<close>, or a letter with no case label, leads to the final
  \<^verbatim>\<open>return TOKEN_IDENTIFIER\<close>.
\<close>

definition identifierType :: "string \<Rightarrow> Scanner \<Rightarrow> TokenType" where
  "identifierType src sc =
     (let c = char_at src (start sc) in
      if c = CHR ''a'' then checkKeyword src sc 1 2 ''nd'' TOKEN_AND
      else if c = CHR ''c'' then checkKeyword src sc 1 4 ''lass'' TOKEN_CLASS
      else if c = CHR ''e'' then checkKeyword src sc 1 3 ''lse'' TOKEN_ELSE
      else if c = CHR ''f'' then
        (if int (current sc) - int (start sc) > 1 then
           (let d = char_at src (start sc + 1) in
            if d = CHR ''a'' then checkKeyword src sc 2 3 ''lse'' TOKEN_FALSE
            else if d = CHR ''o'' then checkKeyword src sc 2 1 ''r'' TOKEN_FOR
            else if d = CHR ''u'' then checkKeyword src sc 2 1 ''n'' TOKEN_FUN
            else TOKEN_IDENTIFIER)
         else TOKEN_IDENTIFIER)
      else if c = CHR ''i'' then checkKeyword src sc 1 1 ''f'' TOKEN_IF
      else if c = CHR ''n'' then checkKeyword src sc 1 2 ''il'' TOKEN_NIL
      else if c = CHR ''o'' then checkKeyword src sc 1 1 ''r'' TOKEN_OR
      else if c = CHR ''p'' then checkKeyword src sc 1 4 ''rint'' TOKEN_PRINT
      else if c = CHR ''r'' then checkKeyword src sc 1 5 ''eturn'' TOKEN_RETURN
      else if c = CHR ''s'' then checkKeyword src sc 1 4 ''uper'' TOKEN_SUPER
      else if c = CHR ''t'' then
        (if int (current sc) - int (start sc) > 1 then
           (let d = char_at src (start sc + 1) in
            if d = CHR ''h'' then checkKeyword src sc 2 2 ''is'' TOKEN_THIS
            else if d = CHR ''r'' then checkKeyword src sc 2 2 ''ue'' TOKEN_TRUE
            else TOKEN_IDENTIFIER)
         else TOKEN_IDENTIFIER)
      else if c = CHR ''v'' then checkKeyword src sc 1 2 ''ar'' TOKEN_VAR
      else if c = CHR ''w'' then checkKeyword src sc 1 4 ''hile'' TOKEN_WHILE
      else TOKEN_IDENTIFIER)"

lemma isAlpha_not_nul: "isAlpha c \<Longrightarrow> c \<noteq> CHR 0x00"
  by (auto simp: isAlpha_def)

lemma isDigit_not_nul: "isDigit c \<Longrightarrow> c \<noteq> CHR 0x00"
  by (auto simp: isDigit_def)

text \<open>
  \<^verbatim>\<open>while (isAlpha(peek()) || isDigit(peek())) advance();\<close>
\<close>

function identifier_loop :: "string \<Rightarrow> Scanner \<Rightarrow> Scanner" where
  "identifier_loop src sc =
     (if isAlpha (peek src sc) \<or> isDigit (peek src sc)
      then identifier_loop src (snd (advance src sc)) else sc)"
  by pat_completeness auto
termination
proof (relation "measure (\<lambda>(src, sc). length src - current sc)", goal_cases)
  case 1
  show ?case by simp
next
  case (2 src sc)
  then have "char_at src (current sc) \<noteq> CHR 0x00"
    using isAlpha_not_nul isDigit_not_nul by (auto simp: peek_def)
  then have "current sc < length src"
    by (rule not_at_end_in_range)
  then show ?case
    by (simp add: advance_def)
qed

declare identifier_loop.simps [simp del]

text \<open>
  \<^verbatim>\<open>identifier\<close> of scanner.c (the plain name is a command word of Isabelle, hence the
  suffix).
\<close>

definition identifier_token :: "string \<Rightarrow> Scanner \<Rightarrow> Token \<times> Scanner" where
  "identifier_token src sc =
     (let sc' = identifier_loop src sc in (makeToken (identifierType src sc') sc', sc'))"

subsection \<open>Numbers and strings\<close>

text \<open>
  \<^verbatim>\<open>while (isDigit(peek())) advance();\<close>, which \<^verbatim>\<open>number\<close> runs twice.
\<close>

function number_digits :: "string \<Rightarrow> Scanner \<Rightarrow> Scanner" where
  "number_digits src sc =
     (if isDigit (peek src sc) then number_digits src (snd (advance src sc)) else sc)"
  by pat_completeness auto
termination
proof (relation "measure (\<lambda>(src, sc). length src - current sc)", goal_cases)
  case 1
  show ?case by simp
next
  case (2 src sc)
  then have "char_at src (current sc) \<noteq> CHR 0x00"
    using isDigit_not_nul by (auto simp: peek_def)
  then have "current sc < length src"
    by (rule not_at_end_in_range)
  then show ?case
    by (simp add: advance_def)
qed

declare number_digits.simps [simp del]

definition number :: "string \<Rightarrow> Scanner \<Rightarrow> Token \<times> Scanner" where
  "number src sc =
     (let sc1 = number_digits src sc;
          sc2 = (if peek src sc1 = CHR ''.'' \<and> isDigit (peekNext src sc1)
                 then number_digits src (snd (advance src sc1)) else sc1)
      in (makeToken TOKEN_NUMBER sc2, sc2))"

text \<open>
  The loop of \<^verbatim>\<open>string\<close>; 0x22 is the double quote.
\<close>

function string_loop :: "string \<Rightarrow> Scanner \<Rightarrow> Scanner" where
  "string_loop src sc =
     (if peek src sc \<noteq> CHR 0x22 \<and> \<not> isAtEnd src sc then
        string_loop src
          (snd (advance src (if peek src sc = CHR 0x0A then sc\<lparr>line := line sc + 1\<rparr> else sc)))
      else sc)"
  by pat_completeness auto
termination
  by (relation "measure (\<lambda>(src, sc). length src - current sc)")
     (auto simp: isAtEnd_def advance_def dest!: not_at_end_in_range)

declare string_loop.simps [simp del]

definition string :: "string \<Rightarrow> Scanner \<Rightarrow> Token \<times> Scanner" where
  "string src sc =
     (let sc1 = string_loop src sc in
      if isAtEnd src sc1 then (errorToken ''Unterminated string.'' sc1, sc1)
      else let sc2 = snd (advance src sc1) in (makeToken TOKEN_STRING sc2, sc2))"

subsection \<open>scanToken\<close>

text \<open>
  The function returns the token and leaves the new scanner state. The \<^verbatim>\<open>switch\<close> is the
  chain of comparisons, in the order of its case labels.
\<close>

definition scanToken :: "string \<Rightarrow> Scanner \<Rightarrow> Token \<times> Scanner" where
  "scanToken src sc0 =
     (let sc1 = skipWhitespace src sc0;
          sc2 = sc1\<lparr>start := current sc1\<rparr>
      in if isAtEnd src sc2 then (makeToken TOKEN_EOF sc2, sc2)
         else
           let (c, sc) = advance src sc2 in
           if isAlpha c then identifier_token src sc
           else if isDigit c then number src sc
           else if c = CHR ''('' then (makeToken TOKEN_LEFT_PAREN sc, sc)
           else if c = CHR '')'' then (makeToken TOKEN_RIGHT_PAREN sc, sc)
           else if c = CHR ''{'' then (makeToken TOKEN_LEFT_BRACE sc, sc)
           else if c = CHR ''}'' then (makeToken TOKEN_RIGHT_BRACE sc, sc)
           else if c = CHR '';'' then (makeToken TOKEN_SEMICOLON sc, sc)
           else if c = CHR '','' then (makeToken TOKEN_COMMA sc, sc)
           else if c = CHR ''.'' then (makeToken TOKEN_DOT sc, sc)
           else if c = CHR ''-'' then (makeToken TOKEN_MINUS sc, sc)
           else if c = CHR ''+'' then (makeToken TOKEN_PLUS sc, sc)
           else if c = CHR ''/'' then (makeToken TOKEN_SLASH sc, sc)
           else if c = CHR ''*'' then (makeToken TOKEN_STAR sc, sc)
           else if c = CHR ''!'' then
             (let (m, sc') = match src (CHR ''='') sc
              in (makeToken (if m then TOKEN_BANG_EQUAL else TOKEN_BANG) sc', sc'))
           else if c = CHR ''='' then
             (let (m, sc') = match src (CHR ''='') sc
              in (makeToken (if m then TOKEN_EQUAL_EQUAL else TOKEN_EQUAL) sc', sc'))
           else if c = CHR ''<'' then
             (let (m, sc') = match src (CHR ''='') sc
              in (makeToken (if m then TOKEN_LESS_EQUAL else TOKEN_LESS) sc', sc'))
           else if c = CHR ''>'' then
             (let (m, sc') = match src (CHR ''='') sc
              in (makeToken (if m then TOKEN_GREATER_EQUAL else TOKEN_GREATER) sc', sc'))
           else if c = CHR 0x22 then string src sc
           else (errorToken ''Unexpected character.'' sc, sc))"

text \<open>
  The scanner state after \<open>n\<close> calls of \<^verbatim>\<open>scanToken\<close> on a freshly initialised scanner,
  and the token that the next call returns. The token numbered \<open>n\<close> is the one returned
  by call \<open>n + 1\<close>.
\<close>

primrec scan_calls :: "string \<Rightarrow> nat \<Rightarrow> Scanner" where
  "scan_calls src 0 = initScanner src"
| "scan_calls src (Suc n) = snd (scanToken src (scan_calls src n))"

definition nth_token :: "string \<Rightarrow> nat \<Rightarrow> Token" where
  "nth_token src n = fst (scanToken src (scan_calls src n))"

subsection \<open>Notions used in the statements\<close>

text \<open>
  The line number at an offset of the buffer, as a C \<^verbatim>\<open>int\<close>: one more than the number of
  newline characters before that offset.
\<close>

definition lines_at :: "string \<Rightarrow> nat \<Rightarrow> 32 word" where
  "lines_at src pos = word_of_nat (Suc (count_list (take pos src) (CHR 0x0A)))"

text \<open>
  The invariant of the cursor: it is inside the buffer or at the terminator, and the line
  counter is the line number at the cursor.
\<close>

definition cursor_ok :: "string \<Rightarrow> Scanner \<Rightarrow> bool" where
  "cursor_ok src sc = (current sc \<le> length src \<and> line sc = lines_at src (current sc))"

text \<open>
  The characters of an identifier after the first, those inside a string literal, and the
  text between \<^verbatim>\<open>scanner.start\<close> and \<^verbatim>\<open>scanner.current\<close>.
\<close>

definition isAlnum :: "char \<Rightarrow> bool" where
  "isAlnum c = (isAlpha c \<or> isDigit c)"

definition in_string :: "char \<Rightarrow> bool" where
  "in_string c = (c \<noteq> CHR 0x22 \<and> c \<noteq> CHR 0x00)"

definition lexeme :: "string \<Rightarrow> Scanner \<Rightarrow> string" where
  "lexeme src sc = take (current sc - start sc) (drop (start sc) src)"

text \<open>
  The keyword table as the spec gives it, and the kind the spec assigns to a run of
  identifier characters: the kind of the table entry that equals the whole run, and
  identifier when there is none.
\<close>

definition keyword_table :: "(string \<times> TokenType) list" where
  "keyword_table =
     [(''and'', TOKEN_AND), (''class'', TOKEN_CLASS), (''else'', TOKEN_ELSE),
      (''false'', TOKEN_FALSE), (''for'', TOKEN_FOR), (''fun'', TOKEN_FUN), (''if'', TOKEN_IF),
      (''nil'', TOKEN_NIL), (''or'', TOKEN_OR), (''print'', TOKEN_PRINT),
      (''return'', TOKEN_RETURN), (''super'', TOKEN_SUPER), (''this'', TOKEN_THIS),
      (''true'', TOKEN_TRUE), (''var'', TOKEN_VAR), (''while'', TOKEN_WHILE)]"

definition keyword_kind :: "string \<Rightarrow> TokenType" where
  "keyword_kind w = (case map_of keyword_table w of Some k \<Rightarrow> k | None \<Rightarrow> TOKEN_IDENTIFIER)"

text \<open>
  What the part of \<^verbatim>\<open>scanToken\<close> behind the first character guarantees, for a token that is
  not end-of-input: \<open>sc\<close> is the state after the first character, \<open>r\<close> the result.
\<close>

definition token_post :: "string \<Rightarrow> Scanner \<Rightarrow> Token \<times> Scanner \<Rightarrow> bool" where
  "token_post src sc r =
     (let tok = fst r; sc' = snd r in
      start sc' = start sc \<and> current sc \<le> current sc' \<and> tok_type tok \<noteq> TOKEN_EOF \<and>
      tok_line tok = line sc' \<and>
      (tok_type tok \<noteq> TOKEN_ERROR \<longrightarrow>
         tok_start tok = Source (start sc') \<and>
         tok_length tok = word_of_int (int (current sc') - int (start sc'))) \<and>
      (tok_type tok = TOKEN_ERROR \<longrightarrow>
         tok_start tok = Message ''Unterminated string.'' \<or>
         tok_start tok = Message ''Unexpected character.'' \<and> line sc' = line sc) \<and>
      (tok_type tok \<noteq> TOKEN_ERROR \<and> tok_type tok \<noteq> TOKEN_STRING \<longrightarrow> line sc' = line sc) \<and>
      (cursor_ok src sc \<longrightarrow> cursor_ok src sc'))"

section \<open>Facts about the virtual machine\<close>

subsection \<open>Facts about the loop\<close>

lemma opcodes_distinct: "OP_CONSTANT \<noteq> OP_RETURN"
  by (simp add: OP_CONSTANT_def OP_RETURN_def)

text \<open>The loop writes neither the stack, nor the top marker, nor the chunk.\<close>

lemma run_frame:
  "run trace vm out = (r, vm', out') \<Longrightarrow>
     stack vm' = stack vm \<and> stackTop vm' = stackTop vm \<and> chunk vm' = chunk vm"
proof (induction "length (code (chunk vm)) - ip vm" arbitrary: trace vm out rule: less_induct)
  case less
  from less.prems show ?case
    by (subst (asm) run.simps)
       (auto simp: Let_def split: if_splits dest!: less.hyps [rotated])
qed

lemma run_result_ok_or_fault:
  "fst (run trace vm out) \<noteq> Inr INTERPRET_RUNTIME_ERROR \<and>
   fst (run trace vm out) \<noteq> Inr INTERPRET_COMPILE_ERROR"
proof (induction "length (code (chunk vm)) - ip vm" arbitrary: trace vm out rule: less_induct)
  case less
  show ?case
    by (subst run.simps, subst (2) run.simps)
       (auto simp: Let_def less.hyps)
qed

text \<open>One turn of the loop, for each of the three ways the switch can go.\<close>

lemma run_return:
  assumes "ip vm < length (code (chunk vm))" "code (chunk vm) ! ip vm = OP_RETURN"
  shows "run trace vm out =
     (Inr INTERPRET_OK, vm\<lparr>ip := ip vm + 1\<rparr>, out @ trace_out trace (ip vm))"
  using assms opcodes_distinct by (subst run.simps) (auto simp: Let_def trace_out_def)

lemma run_constant:
  assumes "ip vm + 1 < length (code (chunk vm))" "code (chunk vm) ! ip vm = OP_CONSTANT"
    "unat (code (chunk vm) ! (ip vm + 1)) < length (constants (chunk vm))"
  shows "run trace vm out = run trace (vm\<lparr>ip := ip vm + 2\<rparr>)
     (out @ trace_out trace (ip vm) @
        [PrintValue (constants (chunk vm) ! unat (code (chunk vm) ! (ip vm + 1))), PrintNewline])"
  using assms by (subst run.simps) (auto simp: Let_def trace_out_def)

lemma run_other:
  assumes "ip vm < length (code (chunk vm))" "code (chunk vm) ! ip vm \<noteq> OP_CONSTANT"
    "code (chunk vm) ! ip vm \<noteq> OP_RETURN"
  shows "run trace vm out =
     run trace (vm\<lparr>ip := ip vm + 1\<rparr>) (out @ trace_out trace (ip vm))"
  using assms by (subst run.simps) (auto simp: Let_def trace_out_def)

text \<open>A run of load-constant instructions followed by a return, anywhere in the code.\<close>

lemma run_loads:
  assumes "code (chunk vm) = pre @ load_code idxs @ OP_RETURN # rest"
    and "ip vm = length pre"
    and "\<forall>i \<in> set idxs. unat i < length (constants (chunk vm))"
  shows "run trace vm out =
     (Inr INTERPRET_OK, vm\<lparr>ip := length pre + 2 * length idxs + 1\<rparr>,
      out @ load_output trace (constants (chunk vm)) (length pre) idxs)"
  using assms
proof (induction idxs arbitrary: pre vm out)
  case Nil
  then show ?case
    using run_return [of vm trace out] by (simp add: load_code_def)
next
  case (Cons i idxs)
  let ?vm = "vm\<lparr>ip := ip vm + 2\<rparr>"
  let ?out = "out @ trace_out trace (ip vm)
                @ [PrintValue (constants (chunk vm) ! unat i), PrintNewline]"
  have c: "code (chunk ?vm) = (pre @ [OP_CONSTANT, i]) @ load_code idxs @ OP_RETURN # rest"
    using Cons.prems(1) by (simp add: load_code_def)
  have step: "run trace vm out = run trace ?vm ?out"
    using run_constant [of vm trace out] Cons.prems
    by (simp add: load_code_def nth_append)
  have "run trace ?vm ?out
     = (Inr INTERPRET_OK, ?vm\<lparr>ip := length (pre @ [OP_CONSTANT, i]) + 2 * length idxs + 1\<rparr>,
        ?out @ load_output trace (constants (chunk ?vm)) (length (pre @ [OP_CONSTANT, i])) idxs)"
    using Cons.prems by (intro Cons.IH [OF c]) simp_all
  with step show ?case
    using Cons.prems(2) by simp
qed

section \<open>Claims about the virtual machine\<close>

subsection \<open>C1: load-constant followed by return\<close>

text \<open>
  C1, as the code has it. For every container whose instruction stream is
  [load-constant 0, return] and whose constant pool is not empty, \<^verbatim>\<open>interpret\<close> returns the
  success outcome. The load-constant case of the switch calls \<^verbatim>\<open>printValue\<close> and
  \<^verbatim>\<open>printf\<close> and never \<^verbatim>\<open>push\<close>: the constant at pool index 0 is written to the
  output, followed by a newline, and at the point the return opcode executes the stack
  array and the top marker are what they were before the call (an empty stack stays
  empty). Only the chunk reference and the instruction pointer have changed.
\<close>

theorem load_constant_return_prints:
  assumes "code c = [OP_CONSTANT, 0, OP_RETURN]" and "constants c \<noteq> []"
  shows "interpret_chunk trace c vm out =
     (Inr INTERPRET_OK, vm\<lparr>chunk := c, ip := 3\<rparr>,
      out @ trace_out trace 0 @ [PrintValue (constants c ! 0), PrintNewline]
          @ trace_out trace 2)"
proof -
  let ?vm = "vm\<lparr>chunk := c, ip := 0\<rparr>"
  have "code (chunk ?vm) = [] @ load_code [0] @ OP_RETURN # []"
    using assms(1) by (simp add: load_code_def)
  from run_loads [OF this, of trace out] assms(2) show ?thesis
    by (simp add: interpret_chunk_def numeral_2_eq_2 numeral_3_eq_3)
qed

theorem load_constant_return_prints_witness:
  "interpret_chunk True \<lparr>code = [OP_CONSTANT, 0, OP_RETURN], constants = [4::int, 5]\<rparr>
     \<lparr>chunk = \<lparr>code = [], constants = []\<rparr>, ip = 9, stack = [1, 2], stackTop = 2\<rparr> []
   = (Inr INTERPRET_OK,
      \<lparr>chunk = \<lparr>code = [OP_CONSTANT, 0, OP_RETURN], constants = [4, 5]\<rparr>, ip = 3,
         stack = [1, 2], stackTop = 2\<rparr>,
      [TraceInstruction 0, PrintValue 4, PrintNewline, TraceInstruction 2])"
  using load_constant_return_prints
    [of "\<lparr>code = [OP_CONSTANT, 0, OP_RETURN], constants = [4::int, 5]\<rparr>" True
        "\<lparr>chunk = \<lparr>code = [], constants = []\<rparr>, ip = 9, stack = [1, 2], stackTop = 2\<rparr>" "[]"]
  by (simp add: trace_out_def)

text \<open>
  C1 as the spec states it asks for exactly one value on the stack at the point of
  return. On a freshly initialised machine the stack holds no value there: the top marker
  is still at offset 0 and no slot has been written.
\<close>

theorem load_constant_not_pushed:
  "interpret_chunk False \<lparr>code = [OP_CONSTANT, 0, OP_RETURN], constants = [7::nat]\<rparr>
     (initVM \<lparr>chunk = \<lparr>code = [], constants = []\<rparr>, ip = 0, stack = [0, 0], stackTop = 0\<rparr>) []
   = (Inr INTERPRET_OK,
      \<lparr>chunk = \<lparr>code = [OP_CONSTANT, 0, OP_RETURN], constants = [7]\<rparr>, ip = 3,
         stack = [0, 0], stackTop = 0\<rparr>,
      [PrintValue 7, PrintNewline])"
  by (simp add: interpret_chunk_def initVM_def resetStack_def run.simps OP_CONSTANT_def
      OP_RETURN_def)

subsection \<open>C2: bytes outside the opcode enumeration\<close>

text \<open>
  C2, as the code has it. The switch has no default label and \<^verbatim>\<open>run\<close> has no statement
  returning a runtime error. A fetched byte that is neither load-constant nor return
  has no effect of its own: the loop goes on with the byte after it as the next opcode.
  No execution yields the runtime-error outcome.
\<close>

theorem unknown_opcode_skipped:
  assumes "ip vm < length (code (chunk vm))"
    and "code (chunk vm) ! ip vm \<noteq> OP_CONSTANT" and "code (chunk vm) ! ip vm \<noteq> OP_RETURN"
  shows "run trace vm out = run trace (vm\<lparr>ip := ip vm + 1\<rparr>) (out @ trace_out trace (ip vm))
    \<and> fst (run trace vm out) \<noteq> Inr INTERPRET_RUNTIME_ERROR
    \<and> fst (interpret_chunk trace' c vm' out') \<noteq> Inr INTERPRET_RUNTIME_ERROR"
  using run_other [OF assms, of trace out] run_result_ok_or_fault [of trace vm out]
    run_result_ok_or_fault [of trace' "vm'\<lparr>chunk := c, ip := 0\<rparr>" out']
  by (simp add: interpret_chunk_def)

theorem unknown_opcode_skipped_witness:
  "run False \<lparr>chunk = \<lparr>code = [7, 9, 8, OP_RETURN], constants = [] :: nat list\<rparr>, ip = 2,
       stack = [], stackTop = 0\<rparr> []
   = run False \<lparr>chunk = \<lparr>code = [7, 9, 8, OP_RETURN], constants = [] :: nat list\<rparr>, ip = 3,
       stack = [], stackTop = 0\<rparr> []"
proof -
  let ?vm = "\<lparr>chunk = \<lparr>code = [7, 9, 8, OP_RETURN], constants = [] :: nat list\<rparr>, ip = 2,
       stack = [], stackTop = 0\<rparr>"
  have h1: "ip ?vm < length (code (chunk ?vm))"
    by simp
  have h2: "code (chunk ?vm) ! ip ?vm \<noteq> OP_CONSTANT"
    by (simp add: OP_CONSTANT_def)
  have h3: "code (chunk ?vm) ! ip ?vm \<noteq> OP_RETURN"
    by (simp add: OP_RETURN_def)
  from unknown_opcode_skipped [OF h1 h2 h3, of False "[]", THEN conjunct1] show ?thesis
    by (simp add: trace_out_def)
qed

text \<open>
  C2 as the spec states it fails on the stream [2, return]: the byte 2 is passed over
  and the outcome is success.
\<close>

theorem unknown_opcode_ignored:
  "(2::8 word) \<noteq> OP_CONSTANT \<and> (2::8 word) \<noteq> OP_RETURN \<and>
   interpret_chunk False \<lparr>code = [2, OP_RETURN], constants = [] :: nat list\<rparr>
     (initVM \<lparr>chunk = \<lparr>code = [], constants = []\<rparr>, ip = 0, stack = [0, 0], stackTop = 0\<rparr>) []
   = (Inr INTERPRET_OK,
      \<lparr>chunk = \<lparr>code = [2, OP_RETURN], constants = []\<rparr>, ip = 2, stack = [0, 0], stackTop = 0\<rparr>,
      [])"
  by (simp add: interpret_chunk_def initVM_def resetStack_def run.simps OP_CONSTANT_def
      OP_RETURN_def)

subsection \<open>C3: the stack law\<close>

text \<open>
  C3 (last in, first out) evaluated on the code, from an empty stack of three slots
  that hold 0: after \<^verbatim>\<open>push(1); push(2)\<close> the first \<^verbatim>\<open>pop\<close> returns the stale content 0 of
  slot 1, not 2, and the second returns 2, not 1. \<^verbatim>\<open>push\<close> stores through \<^verbatim>\<open>vm.stack\<close>,
  the base of the array, where \<^verbatim>\<open>pop\<close> reads through \<^verbatim>\<open>vm.stackTop\<close>: both values went
  to slot 0 and the value 1 is lost.
\<close>

theorem push_pop_lifo_violated:
  "pop (push 2 (push 1 (initVM
      \<lparr>chunk = \<lparr>code = [], constants = []\<rparr>, ip = 0, stack = [0, 0, 0 :: nat], stackTop = 0\<rparr>)))
    = (Some 0, \<lparr>chunk = \<lparr>code = [], constants = []\<rparr>, ip = 0, stack = [2, 0, 0], stackTop = 1\<rparr>)
   \<and> pop \<lparr>chunk = \<lparr>code = [], constants = []\<rparr>, ip = 0, stack = [2, 0, 0 :: nat], stackTop = 1\<rparr>
    = (Some 2, \<lparr>chunk = \<lparr>code = [], constants = []\<rparr>, ip = 0, stack = [2, 0, 0], stackTop = 0\<rparr>)"
  by (simp add: pop_def push_def initVM_def resetStack_def read_slot_def)

subsection \<open>C4: pushing on a full stack, popping from an empty one\<close>

text \<open>
  C4, as the code has it. Neither \<^verbatim>\<open>push\<close> nor \<^verbatim>\<open>pop\<close> compares the top marker with
  a bound, and neither has a way to report an error: \<^verbatim>\<open>push\<close> always advances the marker
  by one and \<^verbatim>\<open>pop\<close> always retreats it by one, the array keeping its size. Hence
  the marker is within the array after \<^verbatim>\<open>push\<close> exactly when the stack was not full
  before, and after \<^verbatim>\<open>pop\<close> exactly when it was not empty before; and the read of
  \<^verbatim>\<open>pop\<close> falls outside the array exactly when the marker was at or below the base, or
  more than one slot beyond the end.
\<close>

theorem push_pop_unchecked:
  "stackTop (push v vm) = stackTop vm + 1
   \<and> stackTop (snd (pop vm)) = stackTop vm - 1
   \<and> length (stack (push v vm)) = length (stack vm)
   \<and> stack (snd (pop vm)) = stack vm
   \<and> stack_ok (push v vm) = (- 1 \<le> stackTop vm \<and> stackTop vm < int (length (stack vm)))
   \<and> stack_ok (snd (pop vm)) = (0 < stackTop vm \<and> stackTop vm \<le> int (length (stack vm)) + 1)
   \<and> (fst (pop vm) = None) = (stackTop vm \<le> 0 \<or> int (length (stack vm)) < stackTop vm)"
  by (auto simp: pop_def push_def stack_ok_def read_slot_def Let_def)

text \<open>
  C4 as the spec states it fails on a stack of capacity 2: a push on the full stack
  leaves the marker at offset 3, a pop from the empty stack leaves it at offset -1 after a
  read outside the array, and in both cases the call returns as any other call does.
\<close>

theorem push_full_pop_empty_undetected:
  "stack_ok \<lparr>chunk = \<lparr>code = [], constants = []\<rparr>, ip = 0, stack = [5, 6 :: nat], stackTop = 2\<rparr>
   \<and> push 9 \<lparr>chunk = \<lparr>code = [], constants = []\<rparr>, ip = 0, stack = [5, 6 :: nat], stackTop = 2\<rparr>
     = \<lparr>chunk = \<lparr>code = [], constants = []\<rparr>, ip = 0, stack = [9, 6], stackTop = 3\<rparr>
   \<and> \<not> stack_ok (push 9
        \<lparr>chunk = \<lparr>code = [], constants = []\<rparr>, ip = 0, stack = [5, 6 :: nat], stackTop = 2\<rparr>)
   \<and> stack_ok \<lparr>chunk = \<lparr>code = [], constants = []\<rparr>, ip = 0, stack = [5, 6 :: nat], stackTop = 0\<rparr>
   \<and> pop \<lparr>chunk = \<lparr>code = [], constants = []\<rparr>, ip = 0, stack = [5, 6 :: nat], stackTop = 0\<rparr>
     = (None, \<lparr>chunk = \<lparr>code = [], constants = []\<rparr>, ip = 0, stack = [5, 6], stackTop = - 1\<rparr>)
   \<and> \<not> stack_ok (snd (pop
        \<lparr>chunk = \<lparr>code = [], constants = []\<rparr>, ip = 0, stack = [5, 6 :: nat], stackTop = 0\<rparr>))"
  by (simp add: pop_def push_def stack_ok_def read_slot_def)

subsection \<open>C5: the state in which execution begins\<close>

text \<open>
  C5, as the code has it. For every container, \<^verbatim>\<open>interpret\<close> enters the dispatch loop
  with the chunk reference set to the container and the instruction pointer at its first
  instruction, whatever both were before. The stack is not reset: the loop starts, and
  ends, with the stack array and the top marker that earlier activity on the machine has
  left (only \<^verbatim>\<open>initVM\<close> empties the stack).
\<close>

theorem interpret_entry_state:
  "interpret_chunk trace c vm out =
     run trace \<lparr>chunk = c, ip = 0, stack = stack vm, stackTop = stackTop vm\<rparr> out
   \<and> stack (fst (snd (interpret_chunk trace c vm out))) = stack vm
   \<and> stackTop (fst (snd (interpret_chunk trace c vm out))) = stackTop vm"
proof -
  obtain r vm' out' where r: "run trace (vm\<lparr>chunk := c, ip := 0\<rparr>) out = (r, vm', out')"
    by (cases "run trace (vm\<lparr>chunk := c, ip := 0\<rparr>) out") auto
  have e: "vm\<lparr>chunk := c, ip := 0\<rparr> = \<lparr>chunk = c, ip = 0, stack = stack vm, stackTop = stackTop vm\<rparr>"
    by simp
  from run_frame [OF r] have "stack vm' = stack vm" "stackTop vm' = stackTop vm"
    by simp_all
  with r show ?thesis
    unfolding interpret_chunk_def e [symmetric] by simp
qed

text \<open>
  C5 as the spec states it fails after one \<^verbatim>\<open>push\<close> on a fresh machine: the container
  [return] runs, and returns, with that one value still on the stack.
\<close>

theorem interpret_keeps_stack_contents:
  "interpret_chunk False \<lparr>code = [OP_RETURN], constants = []\<rparr>
     (push 5 (initVM
        \<lparr>chunk = \<lparr>code = [], constants = []\<rparr>, ip = 0, stack = [0, 0 :: nat], stackTop = 0\<rparr>)) []
   = (Inr INTERPRET_OK,
      \<lparr>chunk = \<lparr>code = [OP_RETURN], constants = []\<rparr>, ip = 1, stack = [5, 0], stackTop = 1\<rparr>,
      [])"
  by (simp add: interpret_chunk_def initVM_def resetStack_def push_def run.simps OP_CONSTANT_def
      OP_RETURN_def)

subsection \<open>C6: effects of executing load-constant and return\<close>

text \<open>
  C6, as the code has it. A container whose code is a sequence of load-constant
  instructions with operands inside the constant pool, then a return (and anything
  after it), executes with the success outcome; it mutates only the chunk reference and
  the instruction pointer, which ends just behind the return, and it leaves the stack
  alone. It does perform output: each load-constant writes the constant it refers to and
  a newline, in the order of execution (preceded, as is the return, by the disassembly
  of the instruction when tracing is compiled in). The return itself writes nothing.
\<close>

theorem loads_then_return_effects:
  assumes "code c = load_code idxs @ OP_RETURN # rest"
    and "\<forall>i \<in> set idxs. unat i < length (constants c)"
  shows "interpret_chunk trace c vm out =
     (Inr INTERPRET_OK, vm\<lparr>chunk := c, ip := 2 * length idxs + 1\<rparr>,
      out @ load_output trace (constants c) 0 idxs)"
proof -
  let ?vm = "vm\<lparr>chunk := c, ip := 0\<rparr>"
  have "code (chunk ?vm) = [] @ load_code idxs @ OP_RETURN # rest"
    using assms(1) by simp
  from run_loads [OF this, of trace out] assms(2) show ?thesis
    by (simp add: interpret_chunk_def)
qed

theorem loads_then_return_effects_witness:
  "interpret_chunk False \<lparr>code = [OP_CONSTANT, 1, OP_CONSTANT, 1, OP_RETURN, 9], constants = [3, 4 :: int]\<rparr>
     \<lparr>chunk = \<lparr>code = [], constants = []\<rparr>, ip = 7, stack = [8], stackTop = 1\<rparr> [PrintNewline]
   = (Inr INTERPRET_OK,
      \<lparr>chunk = \<lparr>code = [OP_CONSTANT, 1, OP_CONSTANT, 1, OP_RETURN, 9], constants = [3, 4]\<rparr>,
         ip = 5, stack = [8], stackTop = 1\<rparr>,
      [PrintNewline, PrintValue 4, PrintNewline, PrintValue 4, PrintNewline])"
proof -
  let ?c = "\<lparr>code = [OP_CONSTANT, 1, OP_CONSTANT, 1, OP_RETURN, 9], constants = [3, 4 :: int]\<rparr>"
  have h1: "code ?c = load_code [1, 1] @ OP_RETURN # [9]"
    by (simp add: load_code_def)
  have h2: "\<forall>i \<in> set [1, 1 :: 8 word]. unat i < length (constants ?c)"
    by simp
  from loads_then_return_effects [OF h1 h2, of False
      "\<lparr>chunk = \<lparr>code = [], constants = []\<rparr>, ip = 7, stack = [8], stackTop = 1\<rparr>" "[PrintNewline]"]
  show ?thesis
    by (simp add: trace_out_def)
qed

text \<open>
  C6 as the spec states it fails on two load-constant instructions and a return: four
  output events are written.
\<close>

theorem load_constant_prints:
  "interpret_chunk False \<lparr>code = [OP_CONSTANT, 1, OP_CONSTANT, 0, OP_RETURN], constants = [10, 20 :: nat]\<rparr>
     (initVM \<lparr>chunk = \<lparr>code = [], constants = []\<rparr>, ip = 0, stack = [0, 0], stackTop = 0\<rparr>) []
   = (Inr INTERPRET_OK,
      \<lparr>chunk = \<lparr>code = [OP_CONSTANT, 1, OP_CONSTANT, 0, OP_RETURN], constants = [10, 20]\<rparr>,
         ip = 5, stack = [0, 0], stackTop = 0\<rparr>,
      [PrintValue 20, PrintNewline, PrintValue 10, PrintNewline])"
  by (simp add: interpret_chunk_def initVM_def resetStack_def run.simps OP_CONSTANT_def
      OP_RETURN_def)

section \<open>Facts about the scanner\<close>

subsection \<open>The cursor invariant through the loops\<close>

lemma advance_eq [simp]:
  "advance src sc = (char_at src (current sc), sc\<lparr>current := Suc (current sc)\<rparr>)"
  by (simp add: advance_def)

lemma char_at_nth: "i < length src \<Longrightarrow> char_at src i = src ! i"
  by (simp add: char_at_def)

lemma lines_at_Suc:
  "pos < length src \<Longrightarrow>
   lines_at src (Suc pos) = lines_at src pos + (if src ! pos = CHR 0x0A then 1 else 0)"
  by (simp add: lines_at_def take_Suc_conv_app_nth)

lemma cursor_ok_step:
  assumes "cursor_ok src sc" and "char_at src (current sc) = c" and "c \<noteq> CHR 0x00"
    and "c \<noteq> CHR 0x0A"
  shows "cursor_ok src (sc\<lparr>current := Suc (current sc)\<rparr>)"
proof -
  have "current sc < length src"
    using assms(2,3) by (rule char_at_in_range)
  then show ?thesis
    using assms by (simp add: cursor_ok_def lines_at_Suc char_at_nth)
qed

lemma cursor_ok_newline:
  assumes "cursor_ok src sc" and "char_at src (current sc) = CHR 0x0A"
  shows "cursor_ok src (sc\<lparr>line := line sc + 1, current := Suc (current sc)\<rparr>)"
proof -
  have "current sc < length src"
    using assms(2) by (rule char_at_in_range) simp
  then show ?thesis
    using assms by (simp add: cursor_ok_def lines_at_Suc char_at_nth)
qed

lemma cursor_ok_start [simp]: "cursor_ok src (sc\<lparr>start := p\<rparr>) = cursor_ok src sc"
  by (simp add: cursor_ok_def)

lemma cursor_ok_start_current [simp]:
  "cursor_ok src (sc\<lparr>start := p, current := q\<rparr>) = cursor_ok src (sc\<lparr>current := q\<rparr>)"
  by (simp add: cursor_ok_def)

lemma cursor_ok_init: "cursor_ok src (initScanner src)"
  by (simp add: cursor_ok_def initScanner_def lines_at_def)

lemma skipComment_frame: "start (skipComment src sc) = start sc"
proof (induction src sc rule: skipComment.induct)
  case (1 src sc)
  then show ?case
    by (subst skipComment.simps) simp
qed

lemma skipComment_ok: "cursor_ok src sc \<Longrightarrow> cursor_ok src (skipComment src sc)"
proof (induction src sc rule: skipComment.induct)
  case (1 src sc)
  show ?case
  proof (cases "peek src sc \<noteq> CHR 0x0A \<and> \<not> isAtEnd src sc")
    case True
    then have "cursor_ok src (sc\<lparr>current := Suc (current sc)\<rparr>)"
      using "1.prems" by (intro cursor_ok_step [OF _ refl]) (auto simp: peek_def isAtEnd_def)
    with True "1.IH" show ?thesis
      by (subst skipComment.simps) simp
  next
    case False
    with "1.prems" show ?thesis
      by (subst skipComment.simps) auto
  qed
qed

lemma skipWhitespace_props:
  "start (skipWhitespace src sc) = start sc \<and>
   current sc \<le> current (skipWhitespace src sc) \<and>
   peek src (skipWhitespace src sc) \<notin> {CHR '' '', CHR 0x0D, CHR 0x09, CHR 0x0A}"
proof (induction src sc rule: skipWhitespace.induct)
  case (1 src sc)
  show ?case
    using "1.IH" skipComment_current [of sc src] skipComment_frame [of src sc]
    by (subst (1 2 3) skipWhitespace.simps) (auto simp: Let_def)
qed

lemma skipWhitespace_ok: "cursor_ok src sc \<Longrightarrow> cursor_ok src (skipWhitespace src sc)"
proof (induction src sc rule: skipWhitespace.induct)
  case (1 src sc)
  let ?c = "peek src sc"
  consider (blank) "?c = CHR '' '' \<or> ?c = CHR 0x0D \<or> ?c = CHR 0x09"
    | (newline) "?c = CHR 0x0A"
    | (comment) "?c = CHR ''/''" "peekNext src sc = CHR ''/''"
    | (stop) "?c \<noteq> CHR '' ''" "?c \<noteq> CHR 0x0D" "?c \<noteq> CHR 0x09" "?c \<noteq> CHR 0x0A"
        "?c = CHR ''/'' \<longrightarrow> peekNext src sc \<noteq> CHR ''/''"
    by blast
  then show ?case
  proof cases
    case blank
    then have "cursor_ok src (sc\<lparr>current := Suc (current sc)\<rparr>)"
      using "1.prems" by (intro cursor_ok_step [OF _ refl]) (auto simp: peek_def)
    with blank "1.IH"(1) show ?thesis
      by (subst skipWhitespace.simps) (simp add: Let_def)
  next
    case newline
    then have "cursor_ok src (sc\<lparr>line := line sc + 1, current := Suc (current sc)\<rparr>)"
      using "1.prems" by (intro cursor_ok_newline) (auto simp: peek_def)
    with newline "1.IH"(2) show ?thesis
      by (subst skipWhitespace.simps) (simp add: Let_def)
  next
    case comment
    with "1.IH"(3) skipComment_ok [OF "1.prems"] show ?thesis
      by (subst skipWhitespace.simps) (simp add: Let_def)
  next
    case stop
    with "1.prems" show ?thesis
      by (subst skipWhitespace.simps) (auto simp: Let_def)
  qed
qed

lemma skipWhitespace_at_end:
  "char_at src (current sc) = CHR 0x00 \<Longrightarrow> skipWhitespace src sc = sc"
  by (subst skipWhitespace.simps) (simp add: Let_def peek_def)

lemma takeWhile_drop_step:
  assumes "P (char_at src i)" and "\<not> P (CHR 0x00)"
  shows "takeWhile P (drop i src) = char_at src i # takeWhile P (drop (Suc i) src)"
proof -
  have "i < length src"
    using assms by (intro char_at_in_range [OF refl]) auto
  then show ?thesis
    using assms(1) by (simp add: char_at_nth flip: Cons_nth_drop_Suc)
qed

lemma takeWhile_drop_stop:
  assumes "\<not> P (char_at src i)"
  shows "takeWhile P (drop i src) = []"
proof (cases "i < length src")
  case True
  then show ?thesis
    using assms by (simp add: char_at_nth flip: Cons_nth_drop_Suc)
next
  case False
  then show ?thesis by simp
qed

lemma isAlnum_simps: "\<not> isAlnum (CHR 0x00)" "\<not> isAlnum (CHR 0x0A)" "\<not> isDigit (CHR 0x00)"
  "\<not> isDigit (CHR 0x0A)" "\<not> isAlpha (CHR 0x00)" "\<not> isAlpha (CHR 0x0A)"
  by (simp_all add: isAlnum_def isAlpha_def isDigit_def)

lemma in_string_nul: "\<not> in_string (CHR 0x00)"
  by (simp add: in_string_def)

lemma identifier_loop_unfold:
  "isAlnum (char_at src (current sc)) \<Longrightarrow>
     identifier_loop src sc = identifier_loop src (sc\<lparr>current := Suc (current sc)\<rparr>)"
  "\<not> isAlnum (char_at src (current sc)) \<Longrightarrow> identifier_loop src sc = sc"
  by (subst identifier_loop.simps, simp add: isAlnum_def peek_def)+

lemma number_digits_unfold:
  "isDigit (char_at src (current sc)) \<Longrightarrow>
     number_digits src sc = number_digits src (sc\<lparr>current := Suc (current sc)\<rparr>)"
  "\<not> isDigit (char_at src (current sc)) \<Longrightarrow> number_digits src sc = sc"
  by (subst number_digits.simps, simp add: peek_def)+

lemma string_loop_unfold:
  "in_string (char_at src (current sc)) \<Longrightarrow> char_at src (current sc) = CHR 0x0A \<Longrightarrow>
     string_loop src sc =
     string_loop src (sc\<lparr>line := line sc + 1, current := Suc (current sc)\<rparr>)"
  "in_string (char_at src (current sc)) \<Longrightarrow> char_at src (current sc) \<noteq> CHR 0x0A \<Longrightarrow>
     string_loop src sc = string_loop src (sc\<lparr>current := Suc (current sc)\<rparr>)"
  "\<not> in_string (char_at src (current sc)) \<Longrightarrow> string_loop src sc = sc"
  by (subst string_loop.simps, auto simp: in_string_def peek_def isAtEnd_def)+

lemma identifier_loop_props:
  "start (identifier_loop src sc) = start sc \<and>
   line (identifier_loop src sc) = line sc \<and>
   current (identifier_loop src sc) =
     current sc + length (takeWhile isAlnum (drop (current sc) src))"
proof (induction src sc rule: identifier_loop.induct)
  case (1 src sc)
  show ?case
  proof (cases "isAlnum (char_at src (current sc))")
    case True
    then have "isAlpha (peek src sc) \<or> isDigit (peek src sc)"
      by (simp add: isAlnum_def peek_def)
    from "1.IH" [OF this] have "start (identifier_loop src (sc\<lparr>current := Suc (current sc)\<rparr>)) = start sc \<and>
      line (identifier_loop src (sc\<lparr>current := Suc (current sc)\<rparr>)) = line sc \<and>
      current (identifier_loop src (sc\<lparr>current := Suc (current sc)\<rparr>)) =
        Suc (current sc) + length (takeWhile isAlnum (drop (Suc (current sc)) src))"
      by simp
    then show ?thesis
      using True takeWhile_drop_step [of isAlnum src "current sc"] isAlnum_simps(1)
      by (simp add: identifier_loop_unfold(1))
  next
    case False
    with takeWhile_drop_stop [of isAlnum src "current sc"] show ?thesis
      by (simp add: identifier_loop_unfold(2))
  qed
qed

lemma identifier_loop_ok:
  "cursor_ok src sc \<Longrightarrow> cursor_ok src (identifier_loop src sc)"
proof (induction src sc rule: identifier_loop.induct)
  case (1 src sc)
  show ?case
  proof (cases "isAlnum (char_at src (current sc))")
    case True
    then have "cursor_ok src (sc\<lparr>current := Suc (current sc)\<rparr>)"
      using "1.prems" isAlnum_simps
      by (intro cursor_ok_step [OF _ refl]) auto
    with True "1.IH" show ?thesis
      by (simp add: identifier_loop_unfold(1) isAlnum_def peek_def)
  next
    case False
    with "1.prems" show ?thesis
      by (simp add: identifier_loop_unfold(2))
  qed
qed

lemma number_digits_props:
  "start (number_digits src sc) = start sc \<and>
   line (number_digits src sc) = line sc \<and>
   current (number_digits src sc) =
     current sc + length (takeWhile isDigit (drop (current sc) src))"
proof (induction src sc rule: number_digits.induct)
  case (1 src sc)
  show ?case
  proof (cases "isDigit (char_at src (current sc))")
    case True
    with "1.IH" have "start (number_digits src (sc\<lparr>current := Suc (current sc)\<rparr>)) = start sc \<and>
      line (number_digits src (sc\<lparr>current := Suc (current sc)\<rparr>)) = line sc \<and>
      current (number_digits src (sc\<lparr>current := Suc (current sc)\<rparr>)) =
        Suc (current sc) + length (takeWhile isDigit (drop (Suc (current sc)) src))"
      by (simp add: peek_def)
    then show ?thesis
      using True takeWhile_drop_step [of isDigit src "current sc"] isAlnum_simps(3)
      by (simp add: number_digits_unfold(1))
  next
    case False
    with takeWhile_drop_stop [of isDigit src "current sc"] show ?thesis
      by (simp add: number_digits_unfold(2))
  qed
qed

lemma number_digits_ok:
  "cursor_ok src sc \<Longrightarrow> cursor_ok src (number_digits src sc)"
proof (induction src sc rule: number_digits.induct)
  case (1 src sc)
  show ?case
  proof (cases "isDigit (char_at src (current sc))")
    case True
    then have "cursor_ok src (sc\<lparr>current := Suc (current sc)\<rparr>)"
      using "1.prems" isAlnum_simps
      by (intro cursor_ok_step [OF _ refl]) auto
    with True "1.IH" show ?thesis
      by (simp add: number_digits_unfold(1) peek_def)
  next
    case False
    with "1.prems" show ?thesis
      by (simp add: number_digits_unfold(2))
  qed
qed

lemma string_loop_induct [consumes 0, case_names newline other stop]:
  assumes "\<And>sc :: Scanner. in_string (char_at src (current sc)) \<Longrightarrow> char_at src (current sc) = CHR 0x0A \<Longrightarrow>
      P (sc\<lparr>line := line sc + 1, current := Suc (current sc)\<rparr>) \<Longrightarrow> P sc"
    and "\<And>sc :: Scanner. in_string (char_at src (current sc)) \<Longrightarrow> char_at src (current sc) \<noteq> CHR 0x0A \<Longrightarrow>
      P (sc\<lparr>current := Suc (current sc)\<rparr>) \<Longrightarrow> P sc"
    and "\<And>sc :: Scanner. \<not> in_string (char_at src (current sc)) \<Longrightarrow> P sc"
  shows "P (sc :: Scanner)"
proof (induction "length src - current sc" arbitrary: sc rule: less_induct)
  case less
  show ?case
  proof (cases "in_string (char_at src (current sc))")
    case True
    then have "current sc < length src"
      using in_string_nul by (intro char_at_in_range [OF refl]) auto
    then have smaller: "length src - Suc (current sc) < length src - current sc"
      by simp
    show ?thesis
    proof (cases "char_at src (current sc) = CHR 0x0A")
      case True
      have "P (sc\<lparr>line := line sc + 1, current := Suc (current sc)\<rparr>)"
        using smaller by (intro less.hyps) simp
      with \<open>in_string (char_at src (current sc))\<close> True show ?thesis
        by (rule assms(1))
    next
      case False
      have "P (sc\<lparr>current := Suc (current sc)\<rparr>)"
        using smaller by (intro less.hyps) simp
      with \<open>in_string (char_at src (current sc))\<close> False show ?thesis
        by (rule assms(2))
    qed
  next
    case False
    then show ?thesis by (rule assms(3))
  qed
qed

lemma string_loop_props:
  "start (string_loop src sc) = start sc \<and>
   current (string_loop src sc) =
     current sc + length (takeWhile in_string (drop (current sc) src)) \<and>
   line (string_loop src sc) =
     line sc + word_of_nat (count_list (takeWhile in_string (drop (current sc) src)) (CHR 0x0A))"
proof (induction sc rule: string_loop_induct [where src = src])
  case (newline sc)
  then show ?case
    using takeWhile_drop_step [of in_string src "current sc"] in_string_nul
    by (simp add: string_loop_unfold(1))
next
  case (other sc)
  then show ?case
    using takeWhile_drop_step [of in_string src "current sc"] in_string_nul
    by (simp add: string_loop_unfold(2))
next
  case (stop sc)
  then show ?case
    using takeWhile_drop_stop [of in_string src "current sc"]
    by (simp add: string_loop_unfold(3))
qed

lemma string_loop_ok:
  "cursor_ok src sc \<Longrightarrow> cursor_ok src (string_loop src sc)"
proof (induction sc rule: string_loop_induct [where src = src])
  case (newline sc)
  then show ?case
    using cursor_ok_newline [of src sc] by (simp add: string_loop_unfold(1))
next
  case (other sc)
  then show ?case
    using cursor_ok_step [of src sc, OF _ refl] by (simp add: string_loop_unfold(2) in_string_def)
next
  case (stop sc)
  then show ?case
    by (simp add: string_loop_unfold(3))
qed

lemma string_loop_stops: "\<not> in_string (char_at src (current (string_loop src sc)))"
proof (induction sc rule: string_loop_induct [where src = src])
  case (newline sc)
  then show ?case by (simp add: string_loop_unfold(1))
next
  case (other sc)
  then show ?case by (simp add: string_loop_unfold(2))
next
  case (stop sc)
  then show ?case by (simp add: string_loop_unfold(3))
qed

subsection \<open>One call of scanToken\<close>

lemma identifierType_kinds:
  "identifierType src sc \<notin> {TOKEN_EOF, TOKEN_ERROR, TOKEN_STRING, TOKEN_NUMBER}"
  by (simp add: identifierType_def checkKeyword_def Let_def)

lemma makeToken_simps [simp]:
  "tok_type (makeToken ty sc) = ty"
  "tok_start (makeToken ty sc) = Source (start sc)"
  "tok_length (makeToken ty sc) = word_of_int (int (current sc) - int (start sc))"
  "tok_line (makeToken ty sc) = line sc"
  by (simp_all add: makeToken_def)

lemma errorToken_simps [simp]:
  "tok_type (errorToken m sc) = TOKEN_ERROR"
  "tok_start (errorToken m sc) = Message m"
  "tok_length (errorToken m sc) = word_of_nat (length m)"
  "tok_line (errorToken m sc) = line sc"
  by (simp_all add: errorToken_def)

lemma post_identifier: "token_post src sc (identifier_token src sc)"
  using identifierType_kinds [of src "identifier_loop src sc"] identifier_loop_props [of src sc]
    identifier_loop_ok [of src sc]
  by (simp add: token_post_def identifier_token_def Let_def)

lemma post_number: "token_post src sc (number src sc)"
proof -
  let ?sc1 = "number_digits src sc"
  let ?sc2 = "number_digits src (?sc1\<lparr>current := Suc (current ?sc1)\<rparr>)"
  have p1: "start ?sc1 = start sc" "line ?sc1 = line sc" "current sc \<le> current ?sc1"
    using number_digits_props [of src sc] by simp_all
  have p2: "start ?sc2 = start sc" "line ?sc2 = line sc" "current sc \<le> current ?sc2"
    using number_digits_props [of src "?sc1\<lparr>current := Suc (current ?sc1)\<rparr>"] p1 by simp_all
  have ok1: "cursor_ok src sc \<Longrightarrow> cursor_ok src ?sc1"
    by (rule number_digits_ok)
  have ok2: "cursor_ok src ?sc2" if "cursor_ok src sc" "peek src ?sc1 = CHR ''.''"
  proof -
    have "cursor_ok src (?sc1\<lparr>current := Suc (current ?sc1)\<rparr>)"
      using ok1 [OF that(1)] that(2) by (intro cursor_ok_step [OF _ refl]) (simp_all add: peek_def)
    then show ?thesis
      by (rule number_digits_ok)
  qed
  show ?thesis
    using p1 p2 ok1 ok2 by (simp add: token_post_def number_def Let_def)
qed

lemma post_string: "token_post src sc (string src sc)"
proof -
  let ?sc1 = "string_loop src sc"
  have p1: "start ?sc1 = start sc" "current sc \<le> current ?sc1"
    using string_loop_props [of src sc] by simp_all
  have ok1: "cursor_ok src sc \<Longrightarrow> cursor_ok src ?sc1"
    by (rule string_loop_ok)
  have ok2: "cursor_ok src (?sc1\<lparr>current := Suc (current ?sc1)\<rparr>)"
    if "cursor_ok src sc" "\<not> isAtEnd src ?sc1"
    using ok1 [OF that(1)] that(2)
      string_loop_stops [of src sc]
    by (intro cursor_ok_step [OF _ refl]) (auto simp: isAtEnd_def in_string_def)
  show ?thesis
    using p1 ok1 ok2 by (simp add: token_post_def string_def Let_def)
qed

lemma post_simple:
  "ty \<noteq> TOKEN_EOF \<Longrightarrow> ty \<noteq> TOKEN_ERROR \<Longrightarrow> token_post src sc (makeToken ty sc, sc)"
  by (simp add: token_post_def)

lemma post_match:
  assumes "a \<notin> {TOKEN_EOF, TOKEN_ERROR}" "b \<notin> {TOKEN_EOF, TOKEN_ERROR}"
  shows "token_post src sc
     (case match src (CHR ''='') sc of (m, sc') \<Rightarrow> (makeToken (if m then a else b) sc', sc'))"
proof -
  have "cursor_ok src (sc\<lparr>current := Suc (current sc)\<rparr>)"
    if "cursor_ok src sc" "char_at src (current sc) = CHR ''=''"
    using that by (intro cursor_ok_step [OF _ refl]) simp_all
  then show ?thesis
    using assms by (auto simp: token_post_def match_def isAtEnd_def)
qed

lemma post_error: "token_post src sc (errorToken ''Unexpected character.'' sc, sc)"
  by (simp add: token_post_def)

lemma scanToken_cases:
  "(let sc1 = skipWhitespace src sc0; sc2 = sc1\<lparr>start := current sc1\<rparr> in
    if char_at src (current sc1) = CHR 0x00
    then scanToken src sc0 = (makeToken TOKEN_EOF sc2, sc2)
    else token_post src (sc2\<lparr>current := Suc (current sc1)\<rparr>) (scanToken src sc0))"
  by (simp add: scanToken_def Let_def isAtEnd_def post_identifier post_number post_string
      post_simple post_match post_error)

lemma scanToken_ok:
  assumes "cursor_ok src sc"
  shows "cursor_ok src (snd (scanToken src sc))"
proof -
  let ?sc1 = "skipWhitespace src sc"
  have ok1: "cursor_ok src ?sc1"
    using assms by (rule skipWhitespace_ok)
  show ?thesis
  proof (cases "char_at src (current ?sc1) = CHR 0x00")
    case True
    with scanToken_cases [of src sc] ok1 show ?thesis
      by (simp add: Let_def)
  next
    case False
    moreover have "char_at src (current ?sc1) \<noteq> CHR 0x0A"
      using skipWhitespace_props [of src sc] by (simp add: peek_def)
    ultimately have "cursor_ok src (?sc1\<lparr>current := Suc (current ?sc1)\<rparr>)"
      using ok1 by (intro cursor_ok_step [OF _ refl]) simp_all
    with False scanToken_cases [of src sc] show ?thesis
      by (simp add: Let_def token_post_def)
  qed
qed

lemma scan_calls_ok: "cursor_ok src (scan_calls src n)"
  by (induction n) (simp_all add: cursor_ok_init scanToken_ok)

lemma scanToken_eof_iff:
  "(tok_type (fst (scanToken src sc)) = TOKEN_EOF) =
   (char_at src (current (skipWhitespace src sc)) = CHR 0x00)"
  using scanToken_cases [of src sc]
  by (cases "char_at src (current (skipWhitespace src sc)) = CHR 0x00")
     (simp_all add: Let_def token_post_def)

lemma scanToken_start: "start (snd (scanToken src sc)) = current (skipWhitespace src sc)"
  using scanToken_cases [of src sc]
  by (cases "char_at src (current (skipWhitespace src sc)) = CHR 0x00")
     (simp_all add: Let_def token_post_def)

lemma scanToken_current:
  "current (skipWhitespace src sc) \<le> current (snd (scanToken src sc)) \<and>
   (tok_type (fst (scanToken src sc)) \<noteq> TOKEN_EOF \<longrightarrow>
      current (skipWhitespace src sc) < current (snd (scanToken src sc)))"
  using scanToken_cases [of src sc]
  by (cases "char_at src (current (skipWhitespace src sc)) = CHR 0x00")
     (simp_all add: Let_def token_post_def)

lemma scanToken_advances:
  assumes "char_at src (current sc) \<noteq> CHR 0x00"
  shows "current sc < current (snd (scanToken src sc))"
proof (cases "tok_type (fst (scanToken src sc)) = TOKEN_EOF")
  case True
  then have "char_at src (current (skipWhitespace src sc)) = CHR 0x00"
    by (simp add: scanToken_eof_iff)
  with assms have "current (skipWhitespace src sc) \<noteq> current sc"
    by auto
  with skipWhitespace_props [of src sc] scanToken_current [of src sc] show ?thesis
    by simp
next
  case False
  with skipWhitespace_props [of src sc] scanToken_current [of src sc] show ?thesis
    by simp
qed

lemma scanToken_at_end:
  assumes "char_at src (current sc) = CHR 0x00"
  shows "scanToken src sc = (makeToken TOKEN_EOF (sc\<lparr>start := current sc\<rparr>), sc\<lparr>start := current sc\<rparr>)"
  using scanToken_cases [of src sc] assms by (simp add: skipWhitespace_at_end Let_def)

lemma scanToken_line:
  "tok_line (fst (scanToken src sc)) = line (snd (scanToken src sc))"
  using scanToken_cases [of src sc]
  by (cases "char_at src (current (skipWhitespace src sc)) = CHR 0x00")
     (auto simp: Let_def token_post_def)

lemma scanToken_line_unchanged:
  assumes "tok_type (fst (scanToken src sc)) \<noteq> TOKEN_STRING"
    and "tok_start (fst (scanToken src sc)) \<noteq> Message ''Unterminated string.''"
  shows "line (snd (scanToken src sc)) = line (skipWhitespace src sc)"
  using scanToken_cases [of src sc] assms
  by (cases "char_at src (current (skipWhitespace src sc)) = CHR 0x00")
     (auto simp: Let_def token_post_def)

lemma scanToken_source_start:
  assumes "tok_type (fst (scanToken src sc)) \<noteq> TOKEN_ERROR"
  shows "tok_start (fst (scanToken src sc)) = Source (start (snd (scanToken src sc)))"
  using scanToken_cases [of src sc] assms
  by (cases "char_at src (current (skipWhitespace src sc)) = CHR 0x00")
     (auto simp: Let_def token_post_def)

lemma scanToken_string:
  assumes "char_at src (current (skipWhitespace src sc)) = CHR 0x22"
  shows "scanToken src sc =
    string src ((skipWhitespace src sc)\<lparr>start := current (skipWhitespace src sc),
                                         current := Suc (current (skipWhitespace src sc))\<rparr>)"
  using assms by (simp add: scanToken_def Let_def isAtEnd_def isAlpha_def isDigit_def)

lemma scanToken_identifier:
  assumes "isAlpha (char_at src (current (skipWhitespace src sc)))"
  shows "scanToken src sc =
    identifier_token src ((skipWhitespace src sc)\<lparr>start := current (skipWhitespace src sc),
                                         current := Suc (current (skipWhitespace src sc))\<rparr>)"
  using assms isAlnum_simps(5) by (auto simp: scanToken_def Let_def isAtEnd_def)

subsection \<open>Repeated calls\<close>

lemma no_eof_cursor_lower_bound:
  "(\<And>i. i < k \<Longrightarrow> tok_type (nth_token src i) \<noteq> TOKEN_EOF) \<Longrightarrow> k \<le> current (scan_calls src k)"
proof (induction k)
  case 0
  show ?case by simp
next
  case (Suc k)
  have "k \<le> current (scan_calls src k)"
    using Suc.prems by (intro Suc.IH) simp
  moreover have "tok_type (fst (scanToken src (scan_calls src k))) \<noteq> TOKEN_EOF"
    using Suc.prems [of k] by (simp add: nth_token_def)
  then have "current (scan_calls src k) < current (snd (scanToken src (scan_calls src k)))"
    using scanToken_current [of src "scan_calls src k"]
      skipWhitespace_props [of src "scan_calls src k"] by simp
  ultimately show ?case by simp
qed

lemma eof_within_bound: "\<exists>n\<le>length src. tok_type (nth_token src n) = TOKEN_EOF"
proof (rule ccontr)
  assume "\<not> ?thesis"
  then have "\<And>i. i < Suc (length src) \<Longrightarrow> tok_type (nth_token src i) \<noteq> TOKEN_EOF"
    by (simp add: less_Suc_eq_le)
  then have "Suc (length src) \<le> current (scan_calls src (Suc (length src)))"
    by (rule no_eof_cursor_lower_bound)
  moreover have "current (scan_calls src (Suc (length src))) \<le> length src"
    using scan_calls_ok [of src "Suc (length src)"] by (simp add: cursor_ok_def)
  ultimately show False by simp
qed

lemma source_token_span:
  assumes "tok_type (nth_token src n) \<noteq> TOKEN_ERROR" "tok_type (nth_token src n) \<noteq> TOKEN_EOF"
  shows "tok_start (nth_token src n) = Source (start (scan_calls src (Suc n))) \<and>
    tok_length (nth_token src n) =
      word_of_nat (current (scan_calls src (Suc n)) - start (scan_calls src (Suc n))) \<and>
    start (scan_calls src (Suc n)) < current (scan_calls src (Suc n)) \<and>
    current (scan_calls src (Suc n)) \<le> length src"
proof -
  let ?sc = "scan_calls src n"
  let ?sc' = "snd (scanToken src ?sc)"
  have le: "current ?sc' \<le> length src"
    using scan_calls_ok [of src "Suc n"] by (simp add: cursor_ok_def)
  have less: "start ?sc' < current ?sc'"
    using scanToken_current [of src ?sc] scanToken_start [of src ?sc] assms(2)
    by (simp add: nth_token_def)
  have "tok_start (fst (scanToken src ?sc)) = Source (start ?sc') \<and>
      tok_length (fst (scanToken src ?sc)) = word_of_int (int (current ?sc') - int (start ?sc'))"
    using scanToken_cases [of src ?sc] assms
    by (cases "char_at src (current (skipWhitespace src ?sc)) = CHR 0x00")
       (simp_all add: Let_def token_post_def nth_token_def)
  with le less show ?thesis
    by (simp add: nth_token_def of_nat_diff)
qed

subsection \<open>Reading the 32-bit fields as numbers\<close>

lemma sint_word_of_nat:
  assumes "k < 2 ^ 31"
  shows "sint (word_of_nat k :: 32 word) = int k"
proof -
  have "int k < 2 ^ 31"
    using assms by (metis of_nat_less_iff of_nat_numeral of_nat_power)
  then have "signed_take_bit 31 (int k) = int k"
    by (intro signed_take_bit_int_eq_self) simp_all
  moreover have "sint (word_of_int (int k) :: 32 word) = signed_take_bit 31 (int k)"
    by (simp only: sint_sbintrunc') simp
  ultimately show ?thesis
    by (simp only: of_int_of_nat_eq)
qed

lemma sint_lines_at:
  assumes "length src < 2 ^ 31 - 1"
  shows "sint (lines_at src pos) = 1 + int (count_list (take pos src) (CHR 0x0A))"
proof -
  have "count_list (take pos src) (CHR 0x0A) \<le> length (take pos src)"
    by (rule count_le_length)
  with assms have "Suc (count_list (take pos src) (CHR 0x0A)) < 2 ^ 31"
    by simp
  then show ?thesis
    unfolding lines_at_def by (subst sint_word_of_nat) simp_all
qed

subsection \<open>The keyword switch against the keyword table\<close>

lemma memcmp_eq_lexeme:
  assumes "start sc \<le> current sc" "current sc \<le> length src"
    and "current sc - start sc = k + n"
  shows "map (char_at src) [start sc + k ..< start sc + k + n] = drop k (lexeme src sc)"
  using assms by (auto simp: list_eq_iff_nth_eq lexeme_def char_at_nth add.assoc)

lemma checkKeyword_lexeme:
  assumes "start sc \<le> current sc" "current sc \<le> length src" "length rest = n"
  shows "checkKeyword src sc k n rest ty =
    (if length (lexeme src sc) = k + n \<and> drop k (lexeme src sc) = rest
     then ty else TOKEN_IDENTIFIER)"
proof (cases "current sc - start sc = k + n")
  case True
  then have "int (current sc) - int (start sc) = int k + int n"
    using assms(1) by linarith
  moreover have "length (lexeme src sc) = k + n"
    using True assms by (simp add: lexeme_def)
  ultimately show ?thesis
    using memcmp_eq_lexeme [OF assms(1,2) True] assms(3)
    by (simp add: checkKeyword_def memcmp_eq_def)
next
  case False
  then have "int (current sc) - int (start sc) \<noteq> int k + int n"
    using assms(1) by linarith
  moreover have "length (lexeme src sc) \<noteq> k + n"
    using False assms by (simp add: lexeme_def)
  ultimately show ?thesis
    by (simp add: checkKeyword_def)
qed

lemma identifierType_keyword_kind:
  assumes "start sc < current sc" "current sc \<le> length src"
  shows "identifierType src sc = keyword_kind (lexeme src sc)"
proof -
  let ?w = "lexeme src sc"
  have le: "start sc \<le> current sc"
    using assms(1) by simp
  have len: "length ?w = current sc - start sc"
    using assms by (simp add: lexeme_def)
  have first: "char_at src (start sc) = hd ?w"
    using assms by (simp add: lexeme_def char_at_nth hd_conv_nth hd_drop_conv_nth)
  have gap: "(1 < int (current sc) - int (start sc)) = (1 < length ?w)"
    using assms len by linarith
  have ck: "\<And>k n rest ty. length rest = n \<Longrightarrow> checkKeyword src sc k n rest ty =
      (if length ?w = k + n \<and> drop k ?w = rest then ty else TOKEN_IDENTIFIER)"
    by (rule checkKeyword_lexeme [OF le assms(2)])
  obtain c cs where w: "?w = c # cs"
    using len assms(1) by (cases ?w) auto
  show ?thesis
  proof (cases "1 < length ?w")
    case False
    with w have cs: "cs = []" by simp
    show ?thesis
      unfolding identifierType_def Let_def gap first
      by (simp add: ck w cs keyword_kind_def keyword_table_def)
  next
    case True
    then have second: "char_at src (start sc + 1) = ?w ! 1"
      using assms len by (simp add: lexeme_def char_at_nth)
    from True w obtain d ds where cs: "cs = d # ds"
      by (cases cs) auto
    show ?thesis
      unfolding identifierType_def Let_def gap first second
      by (simp add: ck w cs keyword_kind_def keyword_table_def)
  qed
qed

lemma keyword_kind_identifier:
  "(keyword_kind w = TOKEN_IDENTIFIER) = (w \<notin> set (map fst keyword_table))"
proof (cases "map_of keyword_table w")
  case None
  then have "w \<notin> set (map fst keyword_table)"
    by (simp add: map_of_eq_None_iff)
  with None show ?thesis
    by (simp add: keyword_kind_def)
next
  case (Some k)
  then have "(w, k) \<in> set keyword_table"
    by (rule map_of_SomeD)
  then have "k \<noteq> TOKEN_IDENTIFIER" "w \<in> set (map fst keyword_table)"
    by (auto simp: keyword_table_def)
  with Some show ?thesis
    by (simp add: keyword_kind_def)
qed

section \<open>Claims about the scanner\<close>

subsection \<open>C7: keywords and identifiers\<close>

text \<open>
  C7. Whenever the first character that \<^verbatim>\<open>scanToken\<close> finds after the whitespace is a
  letter or an underscore, the lexeme of the token is the maximal run of letters, digits
  and underscores from there, and the token's kind is the kind of the keyword table entry
  that equals the whole lexeme, in length and content, when there is one, and identifier
  otherwise: a proper prefix of a keyword, a keyword followed by more characters and
  every other variant is an identifier.
\<close>

theorem identifier_kind_by_keyword_table:
  assumes "isAlpha (char_at src (current (skipWhitespace src sc)))"
  shows "(let tok = fst (scanToken src sc); sc' = snd (scanToken src sc); w = lexeme src sc' in
      w = takeWhile isAlnum (drop (current (skipWhitespace src sc)) src) \<and>
      tok_start tok = Source (start sc') \<and>
      tok_type tok = keyword_kind w \<and>
      (tok_type tok = TOKEN_IDENTIFIER) = (w \<notin> set (map fst keyword_table)))"
proof -
  let ?p = "current (skipWhitespace src sc)"
  let ?sc3 = "(skipWhitespace src sc)\<lparr>start := ?p, current := Suc ?p\<rparr>"
  let ?sc' = "identifier_loop src ?sc3"
  let ?run = "takeWhile isAlnum (drop ?p src)"
  have alnum: "isAlnum (char_at src ?p)"
    using assms by (simp add: isAlnum_def)
  have tw: "?run = char_at src ?p # takeWhile isAlnum (drop (Suc ?p) src)"
    using alnum isAlnum_simps(1) by (rule takeWhile_drop_step)
  have st: "start ?sc' = ?p" and cur: "current ?sc' = ?p + length ?run"
    using identifier_loop_props [of src ?sc3] by (simp_all add: tw)
  have "length ?run \<le> length (drop ?p src)"
    by (rule length_takeWhile_le)
  moreover have "?p < length src"
    using assms isAlnum_simps(5) by (intro char_at_in_range [OF refl]) auto
  ultimately have le: "current ?sc' \<le> length src"
    by (simp add: cur)
  have less: "start ?sc' < current ?sc'"
    by (simp add: st cur tw)
  have w: "lexeme src ?sc' = ?run"
    by (simp add: lexeme_def st cur flip: takeWhile_eq_take)
  have ty: "identifierType src ?sc' = keyword_kind ?run"
    using identifierType_keyword_kind [OF less le] by (simp only: w)
  show ?thesis
    unfolding scanToken_identifier [OF assms] identifier_token_def Let_def
    by (simp add: w ty keyword_kind_identifier)
qed

text \<open>
  The spec's examples: \<^verbatim>\<open>for\<close> is the keyword, \<^verbatim>\<open>forest\<close> and \<^verbatim>\<open>fo\<close> are identifiers.
\<close>

theorem identifier_kind_by_keyword_table_witness:
  "tok_type (fst (scanToken ''for'' (initScanner ''for''))) = TOKEN_FOR \<and>
   tok_type (fst (scanToken ''forest'' (initScanner ''forest''))) = TOKEN_IDENTIFIER \<and>
   tok_type (fst (scanToken ''fo'' (initScanner ''fo''))) = TOKEN_IDENTIFIER"
proof -
  have h1: "isAlpha (char_at ''for'' (current (skipWhitespace ''for'' (initScanner ''for''))))"
    by code_simp
  have h2: "isAlpha (char_at ''forest''
      (current (skipWhitespace ''forest'' (initScanner ''forest''))))"
    by code_simp
  have h3: "isAlpha (char_at ''fo'' (current (skipWhitespace ''fo'' (initScanner ''fo''))))"
    by code_simp
  have k1: "keyword_kind (takeWhile isAlnum
      (drop (current (skipWhitespace ''for'' (initScanner ''for''))) ''for'')) = TOKEN_FOR"
    by code_simp
  have k2: "keyword_kind (takeWhile isAlnum
      (drop (current (skipWhitespace ''forest'' (initScanner ''forest''))) ''forest''))
      = TOKEN_IDENTIFIER"
    by code_simp
  have k3: "keyword_kind (takeWhile isAlnum
      (drop (current (skipWhitespace ''fo'' (initScanner ''fo''))) ''fo'')) = TOKEN_IDENTIFIER"
    by code_simp
  from identifier_kind_by_keyword_table [OF h1] identifier_kind_by_keyword_table [OF h2]
    identifier_kind_by_keyword_table [OF h3] k1 k2 k3
  show ?thesis
    by (simp add: Let_def)
qed

subsection \<open>C8: the line of a token\<close>

text \<open>
  C8, as the code has it. \<^verbatim>\<open>makeToken\<close> and \<^verbatim>\<open>errorToken\<close> copy the line counter as it
  is when the token is made, that is at the end of the lexeme. For a buffer of fewer than
  2^31 - 1 characters, the line of every token returned by \<^verbatim>\<open>scanToken\<close> is one more
  than the number of newline characters before the position at which the scan of the token
  ended. For every token other than a string token and the error token of an unterminated
  string, this is also one more than the number of newline characters before the
  beginning of its lexeme, that is the line on which the lexeme begins; the lexeme of a
  token that is not an error token begins at the token's start offset.
\<close>

theorem token_line_counts_newlines:
  assumes "length src < 2 ^ 31 - 1"
  shows "sint (tok_line (nth_token src n)) =
      1 + int (count_list (take (current (scan_calls src (Suc n))) src) (CHR 0x0A))
    \<and> (tok_type (nth_token src n) \<noteq> TOKEN_STRING \<and>
       tok_start (nth_token src n) \<noteq> Message ''Unterminated string.'' \<longrightarrow>
         sint (tok_line (nth_token src n)) =
           1 + int (count_list (take (start (scan_calls src (Suc n))) src) (CHR 0x0A)))
    \<and> (tok_type (nth_token src n) \<noteq> TOKEN_ERROR \<longrightarrow>
         tok_start (nth_token src n) = Source (start (scan_calls src (Suc n))))"
proof -
  let ?sc = "scan_calls src n"
  let ?sc' = "snd (scanToken src ?sc)"
  have "line ?sc' = lines_at src (current ?sc')"
    using scanToken_ok [OF scan_calls_ok, of src n] by (simp add: cursor_ok_def)
  then have a: "sint (tok_line (nth_token src n)) =
      1 + int (count_list (take (current ?sc') src) (CHR 0x0A))"
    by (simp add: nth_token_def scanToken_line sint_lines_at [OF assms])
  have "line (skipWhitespace src ?sc) = lines_at src (start ?sc')"
    using skipWhitespace_ok [OF scan_calls_ok, of src n]
    by (simp add: cursor_ok_def scanToken_start)
  then have b: "sint (tok_line (nth_token src n)) =
      1 + int (count_list (take (start ?sc') src) (CHR 0x0A))"
    if "tok_type (nth_token src n) \<noteq> TOKEN_STRING"
      "tok_start (nth_token src n) \<noteq> Message ''Unterminated string.''"
    using that scanToken_line_unchanged [of src ?sc]
    by (simp add: nth_token_def scanToken_line sint_lines_at [OF assms])
  from a b scanToken_source_start [of src ?sc] show ?thesis
    by (simp add: nth_token_def)
qed

theorem token_line_counts_newlines_witness:
  "sint (tok_line (nth_token [CHR ''a'', CHR 0x0A, CHR ''b''] 1)) = 2 \<and>
   tok_start (nth_token [CHR ''a'', CHR 0x0A, CHR ''b''] 1) = Source 2"
proof -
  let ?src = "[CHR ''a'', CHR 0x0A, CHR ''b'']"
  have h: "length ?src < 2 ^ 31 - 1"
    by simp
  have t: "tok_type (nth_token ?src 1) \<noteq> TOKEN_STRING"
    "tok_start (nth_token ?src 1) \<noteq> Message ''Unterminated string.''"
    "tok_type (nth_token ?src 1) \<noteq> TOKEN_ERROR"
    by code_simp+
  have s: "start (scan_calls ?src (Suc 1)) = 2"
    by code_simp
  have c: "count_list (take (start (scan_calls ?src (Suc 1))) ?src) (CHR 0x0A) = 1"
    by code_simp
  note line = token_line_counts_newlines [OF h, of 1]
  from line t have "sint (tok_line (nth_token ?src 1)) =
      1 + int (count_list (take (start (scan_calls ?src (Suc 1))) ?src) (CHR 0x0A))"
    by blast
  then have "sint (tok_line (nth_token ?src 1)) = 2"
    unfolding c by simp
  moreover from line t have "tok_start (nth_token ?src 1) = Source (start (scan_calls ?src (Suc 1)))"
    by blast
  then have "tok_start (nth_token ?src 1) = Source 2"
    unfolding s .
  ultimately show ?thesis
    by blast
qed

text \<open>
  C8 as the spec states it fails for a string token whose lexeme contains a newline: the
  literal that opens at offset 0 of the buffer, on line 1, and closes on line 2 yields a
  token with line 2.
\<close>

theorem string_token_line_is_last_line:
  "nth_token [CHR 0x22, CHR ''a'', CHR 0x0A, CHR ''b'', CHR 0x22] 0 =
     \<lparr>tok_type = TOKEN_STRING, tok_start = Source 0, tok_length = 5, tok_line = 2\<rparr>
   \<and> count_list (take 0 [CHR 0x22, CHR ''a'', CHR 0x0A, CHR ''b'', CHR 0x22]) (CHR 0x0A) = 0"
  by code_simp

subsection \<open>C9: string literals\<close>

text \<open>
  C9. When the first character after the whitespace is a double quote, \<^verbatim>\<open>scanToken\<close>
  consumes the characters up to the next double quote or the end of the input, counting
  one line for every newline among them. If the end of the input comes first, the result
  is an error token with the message \<^verbatim>\<open>Unterminated string.\<close> (20 characters) whose line is
  the line counter after those newlines, and the cursor rests at the end of the input.
  Otherwise the closing quote is consumed too and the result is a string token, with the
  same line, whose span starts at the opening quote and ends with the closing quote.
\<close>

theorem string_literal_token:
  assumes "char_at src (current (skipWhitespace src sc)) = CHR 0x22"
  shows "(let sc1 = skipWhitespace src sc;
             p = current sc1;
             body = takeWhile in_string (drop (Suc p) src);
             q = Suc p + length body;
             ln = line sc1 + word_of_nat (count_list body (CHR 0x0A))
         in if char_at src q = CHR 0x00 then
              scanToken src sc =
                (\<lparr>tok_type = TOKEN_ERROR, tok_start = Message ''Unterminated string.'',
                  tok_length = 20, tok_line = ln\<rparr>,
                 \<lparr>start = p, current = q, line = ln\<rparr>)
            else
              scanToken src sc =
                (\<lparr>tok_type = TOKEN_STRING, tok_start = Source p,
                  tok_length = word_of_nat (length body + 2), tok_line = ln\<rparr>,
                 \<lparr>start = p, current = Suc q, line = ln\<rparr>) \<and>
              take (length body + 2) (drop p src) = CHR 0x22 # body @ [CHR 0x22])"
proof -
  let ?sc1 = "skipWhitespace src sc"
  let ?p = "current ?sc1"
  let ?sc3 = "?sc1\<lparr>start := ?p, current := Suc ?p\<rparr>"
  let ?body = "takeWhile in_string (drop (Suc ?p) src)"
  let ?q = "Suc ?p + length ?body"
  let ?ln = "line ?sc1 + word_of_nat (count_list ?body (CHR 0x0A))"
  let ?sc4 = "string_loop src ?sc3"
  have sc4: "?sc4 = \<lparr>start = ?p, current = ?q, line = ?ln\<rparr>"
    using string_loop_props [of src ?sc3] by (cases ?sc4) simp
  have stop: "char_at src ?q = CHR 0x22 \<or> char_at src ?q = CHR 0x00"
    using string_loop_stops [of src ?sc3] by (auto simp: sc4 in_string_def)
  show ?thesis
  proof (cases "char_at src ?q = CHR 0x00")
    case True
    then show ?thesis
      unfolding scanToken_string [OF assms] string_def
      by (simp add: Let_def sc4 isAtEnd_def errorToken_def)
  next
    case False
    with stop have quote: "char_at src ?q = CHR 0x22"
      by simp
    have p: "?p < length src"
      by (rule char_at_in_range [OF assms]) simp
    have q: "?q < length src"
      by (rule char_at_in_range [OF quote]) simp
    have "length ?body < length (drop (Suc ?p) src)"
      using q by simp
    then have "take (Suc (length ?body)) (drop (Suc ?p) src) =
        take (length ?body) (drop (Suc ?p) src) @ [drop (Suc ?p) src ! length ?body]"
      by (rule take_Suc_conv_app_nth)
    moreover have "take (length ?body) (drop (Suc ?p) src) = ?body"
      by (rule takeWhile_eq_take [symmetric])
    moreover have "drop (Suc ?p) src ! length ?body = CHR 0x22"
      using q quote by (simp add: char_at_nth)
    moreover have "drop ?p src = CHR 0x22 # drop (Suc ?p) src"
      using p assms by (simp add: char_at_nth flip: Cons_nth_drop_Suc)
    ultimately have span: "take (length ?body + 2) (drop ?p src) = CHR 0x22 # ?body @ [CHR 0x22]"
      by simp
    have "word_of_int (int (Suc ?q) - int ?p) = (word_of_nat (length ?body + 2) :: 32 word)"
      by simp
    with False span show ?thesis
      unfolding scanToken_string [OF assms] string_def
      by (simp add: Let_def sc4 isAtEnd_def makeToken_def)
  qed
qed

theorem string_literal_token_witness:
  "scanToken [CHR 0x22, CHR ''a'', CHR ''b'', CHR ''c'', CHR 0x22]
      (initScanner [CHR 0x22, CHR ''a'', CHR ''b'', CHR ''c'', CHR 0x22])
    = (\<lparr>tok_type = TOKEN_STRING, tok_start = Source 0, tok_length = 5, tok_line = 1\<rparr>,
       \<lparr>start = 0, current = 5, line = 1\<rparr>)
   \<and> scanToken [CHR 0x22, CHR ''a'', CHR 0x0A, CHR ''b'']
      (initScanner [CHR 0x22, CHR ''a'', CHR 0x0A, CHR ''b''])
    = (\<lparr>tok_type = TOKEN_ERROR, tok_start = Message ''Unterminated string.'',
         tok_length = 20, tok_line = 2\<rparr>,
       \<lparr>start = 0, current = 4, line = 2\<rparr>)"
proof -
  let ?closed = "[CHR 0x22, CHR ''a'', CHR ''b'', CHR ''c'', CHR 0x22]"
  let ?open = "[CHR 0x22, CHR ''a'', CHR 0x0A, CHR ''b'']"
  have s1: "skipWhitespace ?closed (initScanner ?closed) = \<lparr>start = 0, current = 0, line = 1\<rparr>"
    by code_simp
  have s2: "skipWhitespace ?open (initScanner ?open) = \<lparr>start = 0, current = 0, line = 1\<rparr>"
    by code_simp
  have h1: "char_at ?closed (current (skipWhitespace ?closed (initScanner ?closed))) = CHR 0x22"
    by (simp add: s1 char_at_def)
  have h2: "char_at ?open (current (skipWhitespace ?open (initScanner ?open))) = CHR 0x22"
    by (simp add: s2 char_at_def)
  from string_literal_token [OF h1] string_literal_token [OF h2] show ?thesis
    by (simp add: s1 s2 Let_def in_string_def char_at_def)
qed

subsection \<open>C10: progress and termination\<close>

text \<open>
  C10. A call of \<^verbatim>\<open>scanToken\<close> with the cursor not at the end-of-input terminator
  advances the cursor by at least one character; with the cursor at the terminator it
  leaves the cursor there and returns an end-of-input token. On a buffer of length L,
  starting from \<^verbatim>\<open>initScanner\<close>, one of the first L + 1 calls returns an end-of-input
  token. The cursor never passes the terminator, and the span of every token that is
  neither an error token nor an end-of-input token is not empty and lies inside the
  buffer (the length read as a number, for a buffer of fewer than 2^31 characters).
\<close>

theorem scanToken_progress_bound:
  "(char_at src (current sc) \<noteq> CHR 0x00 \<longrightarrow> current sc < current (snd (scanToken src sc)))
   \<and> (char_at src (current sc) = CHR 0x00 \<longrightarrow>
        current (snd (scanToken src sc)) = current sc \<and>
        tok_type (fst (scanToken src sc)) = TOKEN_EOF)
   \<and> (\<exists>n\<le>length src. tok_type (nth_token src n) = TOKEN_EOF)
   \<and> current (scan_calls src k) \<le> length src
   \<and> (tok_type (nth_token src k) \<noteq> TOKEN_ERROR \<and> tok_type (nth_token src k) \<noteq> TOKEN_EOF \<and>
      length src < 2 ^ 31 \<longrightarrow>
        (\<exists>s. tok_start (nth_token src k) = Source s \<and>
             0 < sint (tok_length (nth_token src k)) \<and>
             int s + sint (tok_length (nth_token src k)) \<le> int (length src)))"
proof -
  have span: "\<exists>s. tok_start (nth_token src k) = Source s \<and>
             0 < sint (tok_length (nth_token src k)) \<and>
             int s + sint (tok_length (nth_token src k)) \<le> int (length src)"
    if "tok_type (nth_token src k) \<noteq> TOKEN_ERROR" "tok_type (nth_token src k) \<noteq> TOKEN_EOF"
      "length src < 2 ^ 31"
  proof -
    let ?s = "start (scan_calls src (Suc k))" and ?e = "current (scan_calls src (Suc k))"
    from source_token_span [OF that(1,2)]
    have t: "tok_start (nth_token src k) = Source ?s"
      "tok_length (nth_token src k) = word_of_nat (?e - ?s)" "?s < ?e" "?e \<le> length src"
      by simp_all
    have "sint (word_of_nat (?e - ?s) :: 32 word) = int (?e - ?s)"
      using t(4) that(3) by (intro sint_word_of_nat) simp
    then have "sint (tok_length (nth_token src k)) = int (?e - ?s)"
      unfolding t(2) .
    with t(1,3,4) show ?thesis by simp
  qed
  have "current (scan_calls src k) \<le> length src"
    using scan_calls_ok [of src k] by (simp add: cursor_ok_def)
  with span scanToken_advances [of src sc] scanToken_at_end [of src sc] eof_within_bound [of src]
  show ?thesis
    by simp
qed

theorem scanToken_progress_bound_witness:
  "current (initScanner ''a+b'') < current (snd (scanToken ''a+b'' (initScanner ''a+b'')))
   \<and> (\<exists>s. tok_start (nth_token ''a+b'' 1) = Source s \<and>
           0 < sint (tok_length (nth_token ''a+b'' 1)) \<and>
           int s + sint (tok_length (nth_token ''a+b'' 1)) \<le> int (length ''a+b''))
   \<and> current (snd (scanToken ''a+b'' (scan_calls ''a+b'' 3))) = current (scan_calls ''a+b'' 3)
   \<and> tok_type (fst (scanToken ''a+b'' (scan_calls ''a+b'' 3))) = TOKEN_EOF"
proof -
  have h1: "char_at ''a+b'' (current (initScanner ''a+b'')) \<noteq> CHR 0x00"
    by code_simp
  have h2: "tok_type (nth_token ''a+b'' 1) \<noteq> TOKEN_ERROR"
    "tok_type (nth_token ''a+b'' 1) \<noteq> TOKEN_EOF"
    by code_simp+
  have h3: "length ''a+b'' < 2 ^ 31"
    by simp
  have h4: "char_at ''a+b'' (current (scan_calls ''a+b'' 3)) = CHR 0x00"
    by code_simp
  from scanToken_progress_bound [of "''a+b''" "initScanner ''a+b''" 1]
    scanToken_progress_bound [of "''a+b''" "scan_calls ''a+b'' 3" 1] h1 h2 h3 h4
  show ?thesis
    by simp
qed

end
